theory Spec2Isabelle
  imports Main "HOL-Library.Word"
begin

unbundle bit_operations_syntax

section \<open>Atari DOS 2.0S / DOS 2.5 diskette images: a shallow embedding of atr.c\<close>

text \<open>
  The embedding follows \<^verbatim>\<open>src/atr.c\<close> function by function.

  \<^item> An \<^verbatim>\<open>unsigned char\<close> is an 8-bit word; a buffer is a list of them. Sector numbers,
    directory slots and sector counts are \<^verbatim>\<open>int\<close>s of the source that never go negative
    on the paths modelled (the \<^verbatim>\<open>-1\<close> of \<^verbatim>\<open>find_file\<close>, \<^verbatim>\<open>find_empty_entry\<close>,
    \<^verbatim>\<open>alloc_space\<close> and \<^verbatim>\<open>write_file\<close> is an error value here), so they are naturals.
    The byte count \<^verbatim>\<open>size\<close> of \<^verbatim>\<open>write_file\<close> does go negative and is an \<^verbatim>\<open>int\<close>.
  \<^item> The global variables \<^verbatim>\<open>disk\<close> (the open image file), \<^verbatim>\<open>disk_size\<close> and
    \<^verbatim>\<open>cvt_ending\<close> form the record \<open>state\<close>, passed explicitly. The file is the list of
    its bytes, the 16 byte header included.
  \<^item> \<^verbatim>\<open>exit(-1)\<close> and every \<^verbatim>\<open>return -1\<close> are values of the type \<open>error\<close>; a function
    that writes to the image returns the state it leaves behind also when it fails.
  \<^item> The source's local arrays are not initialised. Each function with such an array
    takes its indeterminate initial contents as the argument \<open>uninit\<close> (128 bytes).
  \<^item> The two \<^verbatim>\<open>do ... while (sector)\<close> loops that follow a sector chain need not
    terminate on a cyclic chain: they are partial functions, \<open>None\<close> meaning that the
    loop runs forever. An access outside an array is the error \<open>OutOfBounds\<close>.
  \<^item> Diagnostics printed by \<^verbatim>\<open>getbitmap\<close> in check mode are returned as a list of
    \<open>diag\<close>; all other output is left out.
\<close>

type_synonym u8 = "8 word"
type_synonym sector = "u8 list"

datatype error =
    InvalidSectorZero   \<comment> \<open>\<^verbatim>\<open>exit(-1)\<close> after "Oops, requested sector 0"\<close>
  | InsufficientSpace   \<comment> \<open>"Not enough space"\<close>
  | DirectoryFull       \<comment> \<open>\<^verbatim>\<open>find_empty_entry\<close> returned -1\<close>
  | NotFound            \<comment> \<open>\<^verbatim>\<open>find_file\<close> returned -1\<close>
  | OutOfBounds         \<comment> \<open>an array is accessed outside its bounds (undefined in C)\<close>

datatype diag =
    CountMismatch nat nat | CountOK nat
  | TotalWrong nat | TotalOK
  | TypeOK | TypeWrong nat
  | Count2Mismatch nat nat | Count2OK nat

record state =
  disk :: "u8 list"
  disk_size :: nat
  cvt_ending :: bool

subsection \<open>Constants\<close>

abbreviation (input) SECTOR_SIZE :: nat where "SECTOR_SIZE \<equiv> 128"
abbreviation (input) SD_DISK_SIZE :: nat where "SD_DISK_SIZE \<equiv> 720"
abbreviation (input) ED_DISK_SIZE :: nat where "ED_DISK_SIZE \<equiv> 1024"
abbreviation (input) SECTOR_VTOC :: nat where "SECTOR_VTOC \<equiv> 360"
abbreviation (input) SECTOR_VTOC2 :: nat where "SECTOR_VTOC2 \<equiv> 1024"
abbreviation (input) SECTOR_DIR :: nat where "SECTOR_DIR \<equiv> 361"
abbreviation (input) SECTOR_DIR_SIZE :: nat where "SECTOR_DIR_SIZE \<equiv> 8"
abbreviation (input) FLAG_DELETED :: u8 where "FLAG_DELETED \<equiv> 0x80"
abbreviation (input) FLAG_IN_USE :: u8 where "FLAG_IN_USE \<equiv> 0x40"
abbreviation (input) ENTRY_SIZE :: nat where "ENTRY_SIZE \<equiv> 16"
abbreviation (input) DATA_SIZE :: nat where "DATA_SIZE \<equiv> 125"
abbreviation (input) DATA_FILE_NUM :: nat where "DATA_FILE_NUM \<equiv> 125"
abbreviation (input) DATA_NEXT_HIGH :: nat where "DATA_NEXT_HIGH \<equiv> 125"
abbreviation (input) DATA_NEXT_LOW :: nat where "DATA_NEXT_LOW \<equiv> 126"
abbreviation (input) DATA_BYTES :: nat where "DATA_BYTES \<equiv> 127"
abbreviation (input) VTOC_TYPE :: nat where "VTOC_TYPE \<equiv> 0"
abbreviation (input) VTOC_NUM_SECTS :: nat where "VTOC_NUM_SECTS \<equiv> 1"
abbreviation (input) VTOC_NUM_UNUSED :: nat where "VTOC_NUM_UNUSED \<equiv> 3"
abbreviation (input) VTOC_BITMAP :: nat where "VTOC_BITMAP \<equiv> 10"
abbreviation (input) SD_BITMAP_SIZE :: nat where "SD_BITMAP_SIZE \<equiv> 90"
abbreviation (input) ED_BITMAP_SIZE :: nat where "ED_BITMAP_SIZE \<equiv> 128"
abbreviation (input) ED_BITMAP_START :: nat where "ED_BITMAP_START \<equiv> 6"
abbreviation (input) VTOC2_NUM_UNUSED :: nat where "VTOC2_NUM_UNUSED \<equiv> 122"

subsection \<open>Sector access\<close>

text \<open>
  \<^verbatim>\<open>fseek(disk, off, SEEK_SET); fread(buf, SECTOR_SIZE, 1, disk)\<close>: the bytes the file
  has from \<open>off\<close> on, at most 128 of them, are stored at the start of \<open>buf\<close>; the item
  count returned is 1 when all 128 were there and 0 otherwise (a short read).
\<close>

definition fread_sector :: "u8 list \<Rightarrow> nat \<Rightarrow> sector \<Rightarrow> nat \<times> sector" where
  "fread_sector file off buf =
     (let got = take SECTOR_SIZE (drop off file)
      in (if length got = SECTOR_SIZE then 1 else 0, got @ drop (length got) buf))"

text \<open>
  \<^verbatim>\<open>fseek(disk, off, SEEK_SET); fwrite(buf, SECTOR_SIZE, 1, disk)\<close> on a regular file:
  the 128 bytes replace those at \<open>off\<close>; a file that ends before \<open>off\<close> is extended
  with zero bytes.
\<close>

definition fwrite_sector :: "u8 list \<Rightarrow> nat \<Rightarrow> sector \<Rightarrow> nat \<times> u8 list" where
  "fwrite_sector file off buf =
     (1, take off file @ replicate (off - length file) 0 @ take SECTOR_SIZE buf
           @ drop (off + SECTOR_SIZE) file)"

text \<open>\<^verbatim>\<open>getsect\<close> and \<^verbatim>\<open>putsect\<close> drop the value \<^verbatim>\<open>fread\<close> and \<^verbatim>\<open>fwrite\<close> return.\<close>

definition getsect :: "state \<Rightarrow> sector \<Rightarrow> nat \<Rightarrow> error + sector" where
  "getsect st buf sect =
     (if sect = 0 then Inl InvalidSectorZero
      else Inr (snd (fread_sector (disk st) ((sect - 1) * SECTOR_SIZE + 16) buf)))"

definition putsect :: "state \<Rightarrow> sector \<Rightarrow> nat \<Rightarrow> error + state" where
  "putsect st buf sect =
     (if sect = 0 then Inl InvalidSectorZero
      else Inr (st\<lparr>disk := snd (fwrite_sector (disk st) ((sect - 1) * SECTOR_SIZE + 16) buf)\<rparr>))"

text \<open>
  For the statements below: the 128 bytes the image holds for a sector, whether the
  image holds all of them, and the two image sizes \<^verbatim>\<open>main\<close> accepts (and the
  \<^verbatim>\<open>disk_size\<close> it sets for each) before it runs any command.
\<close>

definition sector_at :: "state \<Rightarrow> nat \<Rightarrow> sector" where
  "sector_at st sect = take SECTOR_SIZE (drop ((sect - 1) * SECTOR_SIZE + 16) (disk st))"

definition in_image :: "state \<Rightarrow> nat \<Rightarrow> bool" where
  "in_image st sect = (0 < sect \<and> sect * SECTOR_SIZE + 16 \<le> length (disk st))"

definition valid_image :: "state \<Rightarrow> bool" where
  "valid_image st =
     (length (disk st) = 16 + 40 * 18 * 128 \<and> disk_size st = SD_DISK_SIZE
      \<or> length (disk st) = 16 + 40 * 26 * 128 \<and> disk_size st = ED_DISK_SIZE)"

subsection \<open>The allocation bitmap\<close>

text \<open>\<^verbatim>\<open>memcpy(dst + d, src + s, n)\<close> on arrays held as lists.\<close>

definition memcpy :: "u8 list \<Rightarrow> nat \<Rightarrow> u8 list \<Rightarrow> nat \<Rightarrow> nat \<Rightarrow> u8 list" where
  "memcpy dst d src s n = take d dst @ take n (drop s src) @ drop (d + n) dst"

text \<open>
  \<^verbatim>\<open>count_free(bitmap, len)\<close>: for each of the first \<open>len\<close> bytes, the masks
  1, 2, 4, ..., 128 that the byte has set. (The callers pass arrays of at least \<open>len\<close>
  bytes; the second equation is for lists that are shorter.)
\<close>

fun count_free :: "u8 list \<Rightarrow> nat \<Rightarrow> nat" where
  "count_free bitmap 0 = 0"
| "count_free [] (Suc len) = 0"
| "count_free (b # bitmap) (Suc len) =
     length (filter (\<lambda>x. b AND x \<noteq> 0) [1, 2, 4, 8, 16, 32, 64, 128]) + count_free bitmap len"

text \<open>\<^verbatim>\<open>a + 256 * b\<close> on two bytes promoted to \<^verbatim>\<open>int\<close>.\<close>

definition le16 :: "u8 \<Rightarrow> u8 \<Rightarrow> nat" where
  "le16 lo hi = unat lo + 256 * unat hi"

definition getbitmap :: "state \<Rightarrow> sector \<Rightarrow> u8 list \<Rightarrow> bool \<Rightarrow> error + u8 list \<times> diag list" where
  "getbitmap st uninit bitmap check =
     (case getsect st uninit SECTOR_VTOC of
        Inl e \<Rightarrow> Inl e
      | Inr vtoc \<Rightarrow>
          let bitmap1 = memcpy bitmap 0 vtoc VTOC_BITMAP SD_BITMAP_SIZE;
              out1 =
                (if check then
                   let count = count_free bitmap1 SD_BITMAP_SIZE;
                       vtoc_count = le16 (vtoc ! VTOC_NUM_UNUSED) (vtoc ! (VTOC_NUM_UNUSED + 1));
                       vtoc_total = le16 (vtoc ! VTOC_NUM_SECTS) (vtoc ! (VTOC_NUM_SECTS + 1));
                       expected_size = (if disk_size st = ED_DISK_SIZE then 1011 else 707)
                   in [if count \<noteq> vtoc_count then CountMismatch count vtoc_count
                       else CountOK count,
                       if vtoc_total \<noteq> expected_size then TotalWrong vtoc_total else TotalOK,
                       if vtoc ! VTOC_TYPE = 2 then TypeOK else TypeWrong (unat (vtoc ! VTOC_TYPE))]
                 else [])
          in if disk_size st = ED_DISK_SIZE then
               (case getsect st uninit SECTOR_VTOC2 of
                  Inl e \<Rightarrow> Inl e
                | Inr vtoc2 \<Rightarrow>
                    let bitmap2 = memcpy bitmap1 SD_BITMAP_SIZE vtoc2
                                    (SD_BITMAP_SIZE - ED_BITMAP_START)
                                    (ED_BITMAP_SIZE - SD_BITMAP_SIZE);
                        out2 =
                          (if check then
                             let count = count_free (drop SD_BITMAP_SIZE bitmap2)
                                           (ED_BITMAP_SIZE - SD_BITMAP_SIZE);
                                 vtoc2_count = le16 (vtoc2 ! VTOC2_NUM_UNUSED)
                                                 (vtoc2 ! (VTOC2_NUM_UNUSED + 1))
                             in [if count \<noteq> vtoc2_count then Count2Mismatch count vtoc2_count
                                 else Count2OK count]
                           else [])
                    in Inr (bitmap2, out1 @ out2))
             else Inr (bitmap1, out1))"

definition putbitmap :: "state \<Rightarrow> sector \<Rightarrow> u8 list \<Rightarrow> (error + unit) \<times> state" where
  "putbitmap st uninit bitmap =
     (case getsect st uninit SECTOR_VTOC of
        Inl e \<Rightarrow> (Inl e, st)
      | Inr vtoc0 \<Rightarrow>
          let vtoc1 = memcpy vtoc0 VTOC_BITMAP bitmap 0 SD_BITMAP_SIZE;
              count = count_free bitmap SD_BITMAP_SIZE;
              vtoc = vtoc1[VTOC_NUM_UNUSED := of_nat count,
                           VTOC_NUM_UNUSED + 1 := of_nat (count div 256)]
          in case putsect st vtoc SECTOR_VTOC of
               Inl e \<Rightarrow> (Inl e, st)
             | Inr st1 \<Rightarrow>
                 if disk_size st1 = ED_DISK_SIZE then
                   (case getsect st1 uninit SECTOR_VTOC2 of
                      Inl e \<Rightarrow> (Inl e, st1)
                    | Inr vtoc2_0 \<Rightarrow>
                        let vtoc2_1 = memcpy vtoc2_0 0 bitmap ED_BITMAP_START
                                        (ED_BITMAP_SIZE - ED_BITMAP_START);
                            count2 = count_free (drop SD_BITMAP_SIZE bitmap)
                                       (ED_BITMAP_SIZE - SD_BITMAP_SIZE);
                            vtoc2 = vtoc2_1[VTOC2_NUM_UNUSED := of_nat count2,
                                            VTOC2_NUM_UNUSED + 1 := of_nat (count2 div 256)]
                        in case putsect st1 vtoc2 SECTOR_VTOC2 of
                             Inl e \<Rightarrow> (Inl e, st1)
                           | Inr st2 \<Rightarrow> (Inr (), st2))
                 else (Inr (), st1))"

text \<open>
  The mask \<^verbatim>\<open>1 << (7 - (x & 7))\<close> of sector \<open>x\<close> in byte \<^verbatim>\<open>x >> 3\<close> of the bitmap.
\<close>

definition bit_mask :: "nat \<Rightarrow> u8" where
  "bit_mask x = push_bit (7 - x mod 8) 1"

definition is_free :: "u8 list \<Rightarrow> nat \<Rightarrow> bool" where
  "is_free bitmap x = (bitmap ! (x div 8) AND bit_mask x \<noteq> 0)"

definition mark_space :: "u8 list \<Rightarrow> nat \<Rightarrow> bool \<Rightarrow> u8 list" where
  "mark_space bitmap start alloc =
     (if alloc then bitmap[start div 8 := bitmap ! (start div 8) AND NOT (bit_mask start)]
      else bitmap[start div 8 := bitmap ! (start div 8) OR bit_mask start])"

text \<open>
  \<^verbatim>\<open>alloc_space(bitmap, list, sects)\<close>. The inner \<^verbatim>\<open>for (x = 1; x != disk_size; ++x)\<close>
  leaves at the first \<open>x\<close> whose bit is set, which is \<open>List.find\<close> on \<open>[1..<disk_size]\<close>;
  it ends with \<^verbatim>\<open>x == disk_size\<close> when there is none. The list returned holds the
  values stored through \<^verbatim>\<open>*list++\<close>, in order; the bitmap is returned as the call
  leaves it, on both paths.
\<close>

fun alloc_space :: "nat \<Rightarrow> u8 list \<Rightarrow> nat \<Rightarrow> (error + unit) \<times> u8 list \<times> nat list" where
  "alloc_space ds bitmap 0 = (Inr (), bitmap, [])"
| "alloc_space ds bitmap (Suc sects) =
     (case List.find (is_free bitmap) [1..<ds] of
        None \<Rightarrow> (Inl InsufficientSpace, bitmap, [])
      | Some x \<Rightarrow>
          (case alloc_space ds (mark_space bitmap x True) sects of
             (rc, bitmap', lst) \<Rightarrow> (rc, bitmap', x # lst)))"

text \<open>The sectors of \<open>[1..<ds]\<close> that the bitmap marks free, in ascending order.\<close>

definition free_sectors :: "nat \<Rightarrow> u8 list \<Rightarrow> nat list" where
  "free_sectors ds bitmap = filter (is_free bitmap) [1..<ds]"

subsection \<open>The directory\<close>

record dirent =
  flag :: u8
  count_lo :: u8
  count_hi :: u8
  start_lo :: u8
  start_hi :: u8
  name :: "u8 list"
  suffix :: "u8 list"

text \<open>The cast \<^verbatim>\<open>(struct dirent * )(buf + y)\<close>: the sixteen bytes at \<open>y\<close> read as an entry.\<close>

definition dirent_at :: "sector \<Rightarrow> nat \<Rightarrow> dirent" where
  "dirent_at buf y =
     \<lparr>flag = buf ! y, count_lo = buf ! (y + 1), count_hi = buf ! (y + 2),
      start_lo = buf ! (y + 3), start_hi = buf ! (y + 4),
      name = take 8 (drop (y + 5) buf), suffix = take 3 (drop (y + 13) buf)\<rparr>"

text \<open>The sixteen bytes of an entry in memory, for \<^verbatim>\<open>memcpy(dir_buf + ..., d, ENTRY_SIZE)\<close>.\<close>

definition dirent_bytes :: "dirent \<Rightarrow> u8 list" where
  "dirent_bytes d =
     [flag d, count_lo d, count_hi d, start_lo d, start_hi d] @ take 8 (name d) @ take 3 (suffix d)"

text \<open>The offsets \<^verbatim>\<open>for (y = 0; y != SECTOR_SIZE; y += ENTRY_SIZE)\<close> runs through.\<close>

definition entry_offsets :: "nat list" where
  "entry_offsets = map (\<lambda>i. i * ENTRY_SIZE) [0..<SECTOR_SIZE div ENTRY_SIZE]"

text \<open>The sectors \<^verbatim>\<open>for (x = SECTOR_DIR; x != SECTOR_DIR + SECTOR_DIR_SIZE; ++x)\<close> runs through.\<close>

definition dir_sectors :: "nat list" where
  "dir_sectors = [SECTOR_DIR..<SECTOR_DIR + SECTOR_DIR_SIZE]"

text \<open>The inner loop of \<^verbatim>\<open>find_empty_entry\<close>: the first offset whose entry is not in use.\<close>

fun empty_in_sector :: "sector \<Rightarrow> nat list \<Rightarrow> nat option" where
  "empty_in_sector buf [] = None"
| "empty_in_sector buf (y # ys) =
     (if flag (dirent_at buf y) AND FLAG_IN_USE = 0 then Some y else empty_in_sector buf ys)"

fun find_empty_loop :: "state \<Rightarrow> sector \<Rightarrow> nat list \<Rightarrow> error + nat" where
  "find_empty_loop st buf [] = Inl DirectoryFull"
| "find_empty_loop st buf (x # xs) =
     (case getsect st buf x of
        Inl e \<Rightarrow> Inl e
      | Inr buf' \<Rightarrow>
          (case empty_in_sector buf' entry_offsets of
             Some y \<Rightarrow> Inr ((x - SECTOR_DIR) * SECTOR_SIZE div ENTRY_SIZE + y div ENTRY_SIZE)
           | None \<Rightarrow> find_empty_loop st buf' xs))"

definition find_empty_entry :: "state \<Rightarrow> sector \<Rightarrow> error + nat" where
  "find_empty_entry st uninit = find_empty_loop st uninit dir_sectors"

definition lower :: "u8 \<Rightarrow> u8" where
  "lower c = (if c \<ge> 0x41 \<and> c \<le> 0x5A then c - 0x41 + 0x61 else c)"

text \<open>\<^verbatim>\<open>while (p && s[p - 1] == ' ') --p;\<close> on the characters written so far.\<close>

definition zap :: "u8 list \<Rightarrow> u8 list" where
  "zap s = rev (dropWhile (\<lambda>c. c = 0x20) (rev s))"

text \<open>
  \<^verbatim>\<open>getname\<close>: the characters \<^verbatim>\<open>s[0..p)\<close> it leaves before the terminating zero.
\<close>

definition getname :: "dirent \<Rightarrow> u8 list" where
  "getname d =
     (let s1 = zap (map lower (take 8 (name d))) @ [0x2E];
          r = length s1;
          s2 = zap (s1 @ map lower (take 3 (suffix d)))
      in if length s2 = r then butlast s2 else s2)"

text \<open>A C string: the characters before the first zero byte; \<^verbatim>\<open>!strcmp(a, b)\<close>.\<close>

definition cstr :: "u8 list \<Rightarrow> u8 list" where
  "cstr s = takeWhile (\<lambda>c. c \<noteq> 0) s"

definition strcmp_eq :: "u8 list \<Rightarrow> u8 list \<Rightarrow> bool" where
  "strcmp_eq a b = (cstr a = cstr b)"

text \<open>\<^verbatim>\<open>if (*name >= 'a' && *name <= 'z') ... = *name++ - 'a' + 'A'\<close> of \<^verbatim>\<open>putname\<close>.\<close>

definition upper :: "u8 \<Rightarrow> u8" where
  "upper c = (if c \<ge> 0x61 \<and> c \<le> 0x7A then c - 0x61 + 0x41 else c)"

text \<open>\<^verbatim>\<open>putname\<close>: the eight bytes of \<^verbatim>\<open>d->name\<close> and the three of \<^verbatim>\<open>d->suffix\<close>.\<close>

definition putname :: "u8 list \<Rightarrow> u8 list \<times> u8 list" where
  "putname nm0 =
     (let nm = cstr nm0;
          base = take 8 (takeWhile (\<lambda>c. c \<noteq> 0x2E) nm);
          name8 = map upper base @ replicate (8 - length base) 0x20;
          rest = dropWhile (\<lambda>c. c \<noteq> 0x2E) (drop (length base) nm);
          ext = (case rest of [] \<Rightarrow> [] | c # cs \<Rightarrow> take 3 cs);
          suffix3 = map upper ext @ replicate (3 - length ext) 0x20
      in (name8, suffix3))"

text \<open>
  The inner loop of \<^verbatim>\<open>find_file\<close>: the first offset whose entry is in use and whose
  name, as \<^verbatim>\<open>getname\<close> gives it, is the file name asked for.
\<close>

fun match_in_sector :: "sector \<Rightarrow> u8 list \<Rightarrow> nat list \<Rightarrow> nat option" where
  "match_in_sector buf filename [] = None"
| "match_in_sector buf filename (y # ys) =
     (if flag (dirent_at buf y) AND FLAG_IN_USE \<noteq> 0
         \<and> strcmp_eq (getname (dirent_at buf y)) filename
      then Some y else match_in_sector buf filename ys)"

fun find_file_loop ::
  "state \<Rightarrow> sector \<Rightarrow> u8 list \<Rightarrow> bool \<Rightarrow> nat list \<Rightarrow> (error + nat) \<times> state" where
  "find_file_loop st buf filename del [] = (Inl NotFound, st)"
| "find_file_loop st buf filename del (x # xs) =
     (case getsect st buf x of
        Inl e \<Rightarrow> (Inl e, st)
      | Inr buf' \<Rightarrow>
          (case match_in_sector buf' filename entry_offsets of
             Some y \<Rightarrow>
               let d = dirent_at buf' y;
                   start = unat (start_hi d) * 256 + unat (start_lo d)
               in if del then
                    (case putsect st (buf'[y := 0x80]) x of
                       Inl e \<Rightarrow> (Inl e, st)
                     | Inr st' \<Rightarrow> (Inr start, st'))
                  else (Inr start, st)
           | None \<Rightarrow> find_file_loop st buf' filename del xs))"

definition find_file :: "state \<Rightarrow> sector \<Rightarrow> u8 list \<Rightarrow> bool \<Rightarrow> (error + nat) \<times> state" where
  "find_file st uninit filename del = find_file_loop st uninit filename del dir_sectors"

subsection \<open>Reading and deleting a file\<close>

text \<open>
  \<^verbatim>\<open>read_file(sector, f)\<close>; \<open>out\<close> is what has been written to \<^verbatim>\<open>f\<close> so far. The byte
  count of a sector is a byte of the sector, so it may exceed the 128 bytes of \<^verbatim>\<open>buf\<close>.
\<close>

partial_function (option) read_file ::
  "state \<Rightarrow> sector \<Rightarrow> nat \<Rightarrow> u8 list \<Rightarrow> (error + u8 list) option" where
  "read_file st uninit sector out =
     (case getsect st uninit sector of
        Inl e \<Rightarrow> Some (Inl e)
      | Inr buf0 \<Rightarrow>
          let next = unat (buf0 ! DATA_NEXT_LOW) + unat (0x3 AND buf0 ! DATA_NEXT_HIGH) * 256;
              bytes = unat (buf0 ! DATA_BYTES)
          in if bytes > SECTOR_SIZE then Some (Inl OutOfBounds)
             else
               let buf = (if cvt_ending st
                          then map (\<lambda>c. if c = 0x9b then 0x0a else c) (take bytes buf0)
                                 @ drop bytes buf0
                          else buf0);
                   out' = out @ take bytes buf
               in if next \<noteq> 0 then read_file st uninit next out' else Some (Inr out'))"

text \<open>
  The loop of \<^verbatim>\<open>del_file\<close>. \<^verbatim>\<open>mark_space\<close> writes \<^verbatim>\<open>bitmap[sector >> 3]\<close>, and the
  first sector comes from a directory entry, so it may lie outside the 128 bytes.
\<close>

partial_function (option) del_file_loop ::
  "state \<Rightarrow> sector \<Rightarrow> u8 list \<Rightarrow> nat \<Rightarrow> (error + u8 list) option" where
  "del_file_loop st uninit bitmap sector =
     (case getsect st uninit sector of
        Inl e \<Rightarrow> Some (Inl e)
      | Inr buf \<Rightarrow>
          let next = unat (buf ! DATA_NEXT_LOW) + unat (0x3 AND buf ! DATA_NEXT_HIGH) * 256
          in if sector div 8 \<ge> ED_BITMAP_SIZE then Some (Inl OutOfBounds)
             else
               let bitmap' = mark_space bitmap sector False
               in if next \<noteq> 0 then del_file_loop st uninit bitmap' next
                  else Some (Inr bitmap'))"

definition del_file :: "state \<Rightarrow> sector \<Rightarrow> nat \<Rightarrow> ((error + unit) \<times> state) option" where
  "del_file st uninit sector =
     (case getbitmap st uninit uninit False of
        Inl e \<Rightarrow> Some (Inl e, st)
      | Inr (bitmap, msgs) \<Rightarrow>
          (case del_file_loop st uninit bitmap sector of
             None \<Rightarrow> None
           | Some (Inl e) \<Rightarrow> Some (Inl e, st)
           | Some (Inr bitmap') \<Rightarrow> Some (putbitmap st uninit bitmap')))"

definition rm :: "state \<Rightarrow> sector \<Rightarrow> u8 list \<Rightarrow> bool \<Rightarrow> ((error + unit) \<times> state) option" where
  "rm st uninit filename ignore =
     (case find_file st uninit filename True of
        (Inl e, st1) \<Rightarrow> Some (Inl e, st1)
      | (Inr first_sect, st1) \<Rightarrow> del_file st1 uninit first_sect)"

subsection \<open>Writing a file\<close>

text \<open>
  The loop \<^verbatim>\<open>for (x = 0; x != sects; ++x)\<close> of \<^verbatim>\<open>write_file\<close>, run over \<open>[0..<sects]\<close>.
  \<open>list\<close> is the array of 1024 \<^verbatim>\<open>int\<close>s. \<^verbatim>\<open>bf\<close> gets its first 125 bytes from
  \<^verbatim>\<open>memcpy\<close> and the other three by assignment, \<^verbatim>\<open>bf[125]\<close> first as the high bits of
  the next sector and then with \<^verbatim>\<open>|= (file_no << 2)\<close>.
\<close>

fun write_file_loop ::
  "state \<Rightarrow> u8 list \<Rightarrow> nat list \<Rightarrow> nat \<Rightarrow> nat \<Rightarrow> int \<Rightarrow> nat list \<Rightarrow> (error + unit) \<times> state" where
  "write_file_loop st buf list sects file_no sz [] = (Inr (), st)"
| "write_file_loop st buf list sects file_no sz (x # xs) =
     (let data = take DATA_SIZE (drop (DATA_SIZE * x) buf);
          next = (if x + 1 = sects then 0 else list ! (x + 1));
          bytes = (if x + 1 = sects then word_of_int sz else of_nat DATA_SIZE);
          bf = data @ [of_nat (next div 256) OR push_bit 2 (of_nat file_no), of_nat next, bytes]
      in case putsect st bf (list ! x) of
           Inl e \<Rightarrow> (Inl e, st)
         | Inr st' \<Rightarrow> write_file_loop st' buf list sects file_no (sz - int DATA_SIZE) xs)"

text \<open>
  \<^verbatim>\<open>write_file\<close>: the array \<^verbatim>\<open>list\<close> is zeroed by \<^verbatim>\<open>memset\<close> and then holds what
  \<^verbatim>\<open>alloc_space\<close> stored in it. The bitmap is the caller's array, changed in place.
\<close>

definition write_file ::
  "state \<Rightarrow> u8 list \<Rightarrow> u8 list \<Rightarrow> nat \<Rightarrow> nat \<Rightarrow> int \<Rightarrow> (error + nat) \<times> u8 list \<times> state" where
  "write_file st bitmap buf sects file_no sz =
     (case alloc_space (disk_size st) bitmap sects of
        (Inl e, bitmap', lst) \<Rightarrow> (Inl e, bitmap', st)
      | (Inr u, bitmap', lst) \<Rightarrow>
          let list = lst @ replicate (ED_DISK_SIZE - length lst) 0
          in case write_file_loop st buf list sects file_no sz [0..<sects] of
               (Inl e, st') \<Rightarrow> (Inl e, bitmap', st')
             | (Inr u', st') \<Rightarrow> (Inr (list ! 0), bitmap', st'))"

definition write_dir ::
  "state \<Rightarrow> sector \<Rightarrow> nat \<Rightarrow> u8 list \<Rightarrow> nat \<Rightarrow> nat \<Rightarrow> (error + unit) \<times> state" where
  "write_dir st uninit file_no filename first_sect sects =
     (let d = \<lparr>flag = FLAG_IN_USE,
               count_lo = of_nat sects, count_hi = of_nat (sects div 256),
               start_lo = of_nat first_sect, start_hi = of_nat (first_sect div 256),
               name = fst (putname filename), suffix = snd (putname filename)\<rparr>;
          x = SECTOR_DIR + file_no div (SECTOR_SIZE div ENTRY_SIZE)
      in case getsect st uninit x of
           Inl e \<Rightarrow> (Inl e, st)
         | Inr dir_buf \<Rightarrow>
             (case putsect st
                     (memcpy dir_buf (ENTRY_SIZE * (file_no mod (SECTOR_SIZE div ENTRY_SIZE)))
                        (dirent_bytes d) 0 ENTRY_SIZE) x of
                Inl e \<Rightarrow> (Inl e, st)
              | Inr st' \<Rightarrow> (Inr (), st')))"

text \<open>
  \<^verbatim>\<open>put_file\<close>, from the point where the local file has been read: \<open>content\<close> is what
  \<^verbatim>\<open>fread\<close> delivered (\<^verbatim>\<open>size\<close> bytes). The value \<^verbatim>\<open>rm\<close> returns is ignored, but an
  \<^verbatim>\<open>exit\<close> inside it ends the program.
\<close>

definition put_file ::
  "state \<Rightarrow> sector \<Rightarrow> u8 list \<Rightarrow> u8 list \<Rightarrow> ((error + unit) \<times> state) option" where
  "put_file st uninit content atari_name =
     (let sz = length content;
          up0 = sz + DATA_SIZE - 1;
          up = up0 - up0 mod DATA_SIZE;
          buf = content @ replicate (up - sz) 0
      in case rm st uninit atari_name True of
           None \<Rightarrow> None
         | Some (r, st1) \<Rightarrow>
             if r = Inl InvalidSectorZero \<or> r = Inl OutOfBounds then Some (r, st1)
             else
               (case getbitmap st1 uninit uninit False of
                  Inl e \<Rightarrow> Some (Inl e, st1)
                | Inr (bitmap, msgs) \<Rightarrow>
                    (case find_empty_entry st1 uninit of
                       Inl e \<Rightarrow> Some (Inl e, st1)
                     | Inr file_no \<Rightarrow>
                         (case write_file st1 bitmap buf (up div DATA_SIZE) file_no (int sz) of
                            (Inl e, bitmap', st2) \<Rightarrow> Some (Inl e, st2)
                          | (Inr first_sect, bitmap', st2) \<Rightarrow>
                              (case write_dir st2 uninit file_no atari_name first_sect
                                      (up div DATA_SIZE) of
                                 (Inl e, st3) \<Rightarrow> Some (Inl e, st3)
                               | (Inr u, st3) \<Rightarrow> Some (putbitmap st3 uninit bitmap'))))))"

subsection \<open>Notions for the statements\<close>

text \<open>
  The directory as the loops of \<^verbatim>\<open>find_file\<close> and \<^verbatim>\<open>find_empty_entry\<close> number it: slot
  \<open>k\<close> (0..63) is the entry at offset \<open>16 * (k mod 8)\<close> of sector \<open>361 + k div 8\<close>.
\<close>

definition slot_entry :: "state \<Rightarrow> nat \<Rightarrow> dirent" where
  "slot_entry st k =
     dirent_at (sector_at st (SECTOR_DIR + k div 8)) (ENTRY_SIZE * (k mod 8))"

definition slot_in_use :: "state \<Rightarrow> nat \<Rightarrow> bool" where
  "slot_in_use st k = (flag (slot_entry st k) AND FLAG_IN_USE \<noteq> 0)"

definition slot_matches :: "state \<Rightarrow> u8 list \<Rightarrow> nat \<Rightarrow> bool" where
  "slot_matches st filename k =
     (slot_in_use st k \<and> strcmp_eq (getname (slot_entry st k)) filename)"

definition entry_start :: "dirent \<Rightarrow> nat" where
  "entry_start d = unat (start_hi d) * 256 + unat (start_lo d)"

definition dir_in_image :: "state \<Rightarrow> bool" where
  "dir_in_image st = list_all (in_image st) dir_sectors"

text \<open>
  The bytes of a string, and images to run the functions on: an image of zero bytes
  of either size, and \<open>poke\<close>, which stores a sector as \<^verbatim>\<open>putsect\<close> does.
\<close>

definition bytes :: "string \<Rightarrow> u8 list" where
  "bytes s = map of_char s"

definition blank_sd :: state where
  "blank_sd = \<lparr>disk = replicate (16 + 40 * 18 * 128) 0, disk_size = SD_DISK_SIZE, cvt_ending = False\<rparr>"

definition blank_ed :: state where
  "blank_ed = \<lparr>disk = replicate (16 + 40 * 26 * 128) 0, disk_size = ED_DISK_SIZE, cvt_ending = False\<rparr>"

definition poke :: "state \<Rightarrow> nat \<Rightarrow> sector \<Rightarrow> state" where
  "poke st sect buf =
     st\<lparr>disk := snd (fwrite_sector (disk st) ((sect - 1) * SECTOR_SIZE + 16) buf)\<rparr>"

text \<open>
  An image for examples: a single density image of zero bytes whose first directory
  slot holds a file in use, named \<^verbatim>\<open>FOO     TXT\<close>, of one sector, starting at sector 4.
\<close>

definition foo_entry :: "u8 list" where
  "foo_entry = [0x42, 1, 0, 4, 0] @ bytes ''FOO     TXT''"

definition dir_example :: state where
  "dir_example = poke blank_sd 361 (foo_entry @ replicate 112 0)"

text \<open>
  Another: a single density image of zero bytes whose VTOC marks sectors 1 and 2, and
  no other, as free.
\<close>

definition vtoc_example :: state where
  "vtoc_example = poke blank_sd 360 (replicate 10 0 @ [0x60] @ replicate 117 0)"

text \<open>
  What \<^verbatim>\<open>read_file\<close> and \<^verbatim>\<open>del_file\<close> read from the last three bytes of a data sector:
  the next sector, the file number and the number of bytes used.
\<close>

definition sector_next :: "sector \<Rightarrow> nat" where
  "sector_next buf = unat (buf ! DATA_NEXT_LOW) + unat (0x3 AND buf ! DATA_NEXT_HIGH) * 256"

definition sector_file_no :: "sector \<Rightarrow> nat" where
  "sector_file_no buf = unat (drop_bit 2 (buf ! DATA_FILE_NUM) AND 0x3F)"

definition sector_bytes :: "sector \<Rightarrow> nat" where
  "sector_bytes buf = unat (buf ! DATA_BYTES)"

text \<open>The sector \<^verbatim>\<open>write_file\<close> stores for index \<open>x\<close>, \<open>sz\<close> being the value of \<^verbatim>\<open>size\<close> then.\<close>

definition data_sector :: "u8 list \<Rightarrow> nat list \<Rightarrow> nat \<Rightarrow> nat \<Rightarrow> int \<Rightarrow> nat \<Rightarrow> sector" where
  "data_sector buf list sects file_no sz x =
     take 125 (drop (125 * x) buf)
       @ [of_nat ((if x + 1 = sects then 0 else list ! (x + 1)) div 256) OR push_bit 2 (of_nat file_no),
          of_nat (if x + 1 = sects then 0 else list ! (x + 1)),
          if x + 1 = sects then word_of_int sz else 125]"

text \<open>
  The sectors the \<^verbatim>\<open>do ... while (sector)\<close> loops of \<^verbatim>\<open>del_file\<close> and \<^verbatim>\<open>read_file\<close> visit
  from a first sector on: each is read with \<^verbatim>\<open>getsect\<close>, the next one is the link in its
  bytes 125 and 126, and the link of the last one is 0.
\<close>

fun is_chain :: "state \<Rightarrow> sector \<Rightarrow> nat \<Rightarrow> nat list \<Rightarrow> bool" where
  "is_chain st uninit sector [] = False"
| "is_chain st uninit sector (x # xs) =
     (x = sector \<and>
      (case getsect st uninit sector of
         Inl e \<Rightarrow> False
       | Inr buf \<Rightarrow>
           if sector_next buf \<noteq> 0 then is_chain st uninit (sector_next buf) xs else xs = []))"

section \<open>The allocator\<close>

lemma is_free_bit: "is_free bitmap x = bit (bitmap ! (x div 8)) (7 - x mod 8)"
  by (simp add: is_free_def bit_mask_def and_exp_eq_0_iff_not_bit)

lemma bit_index_inj:
  assumes "y div 8 = x div 8"
  shows "(7 - y mod 8 = 7 - x mod 8) = (y = (x::nat))"
proof -
  have "x mod 8 < 8" "y mod 8 < 8" by simp_all
  then have "(7 - y mod 8 = 7 - x mod 8) = (y mod 8 = x mod 8)" by arith
  also have "\<dots> = (y = x)" using assms by (metis div_mult_mod_eq)
  finally show ?thesis .
qed

lemma is_free_mark_alloc:
  assumes "x < 8 * length bitmap"
  shows "is_free (mark_space bitmap x True) y = (is_free bitmap y \<and> y \<noteq> x)"
proof (cases "y div 8 = x div 8")
  case True
  with assms bit_index_inj[OF True] show ?thesis
    by (auto simp add: is_free_bit mark_space_def bit_mask_def bit_simps)
next
  case False
  then show ?thesis
    by (auto simp add: is_free_bit mark_space_def)
qed

lemma is_free_mark_free:
  assumes "x < 8 * length bitmap"
  shows "is_free (mark_space bitmap x False) y = (is_free bitmap y \<or> y = x)"
proof (cases "y div 8 = x div 8")
  case True
  with assms bit_index_inj[OF True] show ?thesis
    by (auto simp add: is_free_bit mark_space_def bit_mask_def bit_simps)
next
  case False
  then show ?thesis
    by (auto simp add: is_free_bit mark_space_def)
qed

lemma length_mark_space [simp]: "length (mark_space bitmap x a) = length bitmap"
  by (simp add: mark_space_def)

lemma find_filter: "List.find P xs = (case filter P xs of [] \<Rightarrow> None | x # _ \<Rightarrow> Some x)"
  by (induction xs) auto

lemma filter_drop_first:
  assumes "distinct xs" "filter P xs = x # rest"
  shows "filter (\<lambda>y. P y \<and> y \<noteq> x) xs = rest"
  using assms
proof (induction xs)
  case Nil
  then show ?case by simp
next
  case (Cons a xs)
  show ?case
  proof (cases "P a")
    case True
    with Cons.prems have ax: "a = x" and r: "filter P xs = rest" by simp_all
    from Cons.prems ax have "x \<notin> set xs" by simp
    then have "filter (\<lambda>y. P y \<and> y \<noteq> x) xs = filter P xs"
      by (intro filter_cong) auto
    with True ax r show ?thesis by simp
  next
    case False
    with Cons show ?thesis by simp
  qed
qed

lemma find_free_sectors:
  "List.find (is_free bitmap) [1..<ds] = (case free_sectors ds bitmap of [] \<Rightarrow> None | x # _ \<Rightarrow> Some x)"
  unfolding free_sectors_def by (rule find_filter)

lemma free_sectors_mark:
  assumes "ds \<le> 8 * length bitmap" "free_sectors ds bitmap = x # rest"
  shows "free_sectors ds (mark_space bitmap x True) = rest"
proof -
  have "x \<in> set (free_sectors ds bitmap)" using assms(2) by simp
  then have "x < ds" by (simp add: free_sectors_def)
  with assms(1) have "x < 8 * length bitmap" by simp
  then have "is_free (mark_space bitmap x True) = (\<lambda>y. is_free bitmap y \<and> y \<noteq> x)"
    by (simp add: fun_eq_iff is_free_mark_alloc)
  then show ?thesis
    using filter_drop_first[of "[1..<ds]" "is_free bitmap" x rest] assms(2)
    by (simp add: free_sectors_def)
qed

lemma alloc_space_result:
  assumes "ds \<le> 8 * length bitmap"
  shows "alloc_space ds bitmap n =
    (if n \<le> length (free_sectors ds bitmap) then Inr () else Inl InsufficientSpace,
     foldl (\<lambda>b x. mark_space b x True) bitmap (take n (free_sectors ds bitmap)),
     take n (free_sectors ds bitmap))"
  using assms
proof (induction n arbitrary: bitmap)
  case 0
  then show ?case by simp
next
  case (Suc n)
  show ?case
  proof (cases "free_sectors ds bitmap")
    case Nil
    then show ?thesis by (simp add: find_free_sectors del: One_nat_def)
  next
    case (Cons x rest)
    have len: "ds \<le> 8 * length (mark_space bitmap x True)" using Suc.prems by simp
    show ?thesis
      using Suc.IH[OF len] Cons free_sectors_mark[OF Suc.prems Cons]
      by (simp add: find_free_sectors del: One_nat_def)
  qed
qed

lemma is_free_foldl_mark:
  assumes "\<forall>x\<in>set xs. x < 8 * length bitmap"
  shows "is_free (foldl (\<lambda>b x. mark_space b x True) bitmap xs) y = (is_free bitmap y \<and> y \<notin> set xs)"
  using assms
proof (induction xs arbitrary: bitmap)
  case Nil
  then show ?case by simp
next
  case (Cons a xs)
  then show ?case by (auto simp add: is_free_mark_alloc)
qed

lemma length_foldl_mark [simp]:
  "length (foldl (\<lambda>b x. mark_space b x a) bitmap xs) = length bitmap"
  by (induction xs arbitrary: bitmap) simp_all

lemma sorted_free_sectors: "sorted_wrt (<) (free_sectors ds bitmap)"
  by (simp add: free_sectors_def sorted_wrt_filter)

lemma sorted_wrt_take: "sorted_wrt R xs \<Longrightarrow> sorted_wrt R (take n xs)"
  by (metis append_take_drop_id sorted_wrt_append)


text \<open>Evaluating \<^verbatim>\<open>alloc_space\<close> on a concrete bitmap without enumerating the range.\<close>

lemma find_upt_rec:
  "List.find P [i..<j] = (if i < j then (if P i then Some i else List.find P [Suc i..<j]) else None)"
  by (simp add: upt_rec)

lemma alloc_space_numeral:
  "alloc_space ds bitmap (numeral k) =
     (case List.find (is_free bitmap) [1..<ds] of
        None \<Rightarrow> (Inl InsufficientSpace, bitmap, [])
      | Some x \<Rightarrow>
          (case alloc_space ds (mark_space bitmap x True) (pred_numeral k) of
             (rc, bitmap', lst) \<Rightarrow> (rc, bitmap', x # lst)))"
  by (simp add: numeral_eq_Suc)

lemma alloc_space_1:
  "alloc_space ds bitmap 1 =
     (case List.find (is_free bitmap) [1..<ds] of
        None \<Rightarrow> (Inl InsufficientSpace, bitmap, [])
      | Some x \<Rightarrow> (Inr (), mark_space bitmap x True, [x]))"
  by (simp split: option.splits)

lemmas alloc_eval =
  find_upt_rec alloc_space_numeral alloc_space_1 is_free_def bit_mask_def mark_space_def

text \<open>
  C2. \<^verbatim>\<open>alloc_space\<close> on a bitmap that covers the sectors below \<open>ds\<close> (the callers'
  array has 128 bytes, \<open>ds\<close> is 720 or 1024): the sectors stored in \<^verbatim>\<open>list\<close> are the first
  \<open>n\<close> of the free sectors of \<open>[1..<ds]\<close> in ascending order, that is the \<open>n\<close> lowest
  free ones; the call succeeds exactly when there are \<open>n\<close> of them and fails with
  \<open>InsufficientSpace\<close> otherwise; on both paths the bitmap it leaves has exactly the
  bits of the stored sectors cleared, so on the failure path every free bit of the
  range has been cleared.
\<close>

theorem alloc_space_lowest_free:
  assumes "ds \<le> 8 * length bitmap"
    and "alloc_space ds bitmap n = (rc, bitmap', lst)"
  shows "lst = take n (free_sectors ds bitmap)
       \<and> sorted_wrt (<) lst
       \<and> rc = (if n \<le> length (free_sectors ds bitmap) then Inr () else Inl InsufficientSpace)
       \<and> bitmap' = foldl (\<lambda>b x. mark_space b x True) bitmap lst
       \<and> length bitmap' = length bitmap
       \<and> (\<forall>y. is_free bitmap' y = (is_free bitmap y \<and> y \<notin> set lst))"
proof -
  have eq: "(rc, bitmap', lst) =
    (if n \<le> length (free_sectors ds bitmap) then Inr () else Inl InsufficientSpace,
     foldl (\<lambda>b x. mark_space b x True) bitmap (take n (free_sectors ds bitmap)),
     take n (free_sectors ds bitmap))"
    using alloc_space_result[OF assms(1), of n] assms(2) by simp
  then have lst: "lst = take n (free_sectors ds bitmap)"
    and rc: "rc = (if n \<le> length (free_sectors ds bitmap) then Inr () else Inl InsufficientSpace)"
    by blast+
  from eq have bm: "bitmap' = foldl (\<lambda>b x. mark_space b x True) bitmap lst"
    unfolding lst by blast
  have "set lst \<subseteq> set (free_sectors ds bitmap)"
    unfolding lst by (rule set_take_subset)
  then have "\<forall>x\<in>set lst. x < 8 * length bitmap"
    using assms(1) by (auto simp add: free_sectors_def)
  then have "\<forall>y. is_free bitmap' y = (is_free bitmap y \<and> y \<notin> set lst)"
    unfolding bm by (simp add: is_free_foldl_mark)
  moreover have "sorted_wrt (<) lst"
    unfolding lst by (intro sorted_wrt_take sorted_free_sectors)
  ultimately show ?thesis using lst rc bm by simp
qed

theorem alloc_space_lowest_free_witness:
  "720 \<le> 8 * length (0x0F # replicate 127 (0::u8))
   \<and> alloc_space 720 (0x0F # replicate 127 0) 2 = (Inr (), 0x03 # replicate 127 0, [4, 5])
   \<and> [4, 5] = take 2 (free_sectors 720 (0x0F # replicate 127 0))
   \<and> (2::nat) \<le> length (free_sectors 720 (0x0F # replicate 127 0))
   \<and> alloc_space 720 (0x0F # replicate 127 0) 5
        = (Inl InsufficientSpace, 0x00 # replicate 127 0, [4, 5, 6, 7])
   \<and> [4, 5, 6, 7] = take 5 (free_sectors 720 (0x0F # replicate 127 0))"
proof -
  have l: "720 \<le> 8 * length (0x0F # replicate 127 (0::u8))" by simp
  have a: "alloc_space 720 (0x0F # replicate 127 0) 2 = (Inr (), 0x03 # replicate 127 0, [4, 5])"
    by (simp add: alloc_eval del: upt_rec_numeral One_nat_def)
  have b: "alloc_space 720 (0x0F # replicate 127 0) 5
             = (Inl InsufficientSpace, 0x00 # replicate 127 0, [4, 5, 6, 7])"
    by (simp add: alloc_eval del: upt_rec_numeral One_nat_def)
  from alloc_space_lowest_free[OF l a] alloc_space_lowest_free[OF l b] a b l
  show ?thesis by (simp split: if_splits)
qed

text \<open>
  C10. Whatever the bitmap holds (also one that marks sector 0 or a sector from
  \<open>ds\<close> on as free) and on both paths, every sector \<^verbatim>\<open>alloc_space\<close> stores in
  \<^verbatim>\<open>list\<close> lies in \<open>1 .. ds - 1\<close>.
\<close>

theorem alloc_space_in_range:
  "alloc_space ds bitmap n = (rc, bitmap', lst) \<Longrightarrow> \<forall>x\<in>set lst. 1 \<le> x \<and> x \<le> ds - 1"
proof (induction n arbitrary: bitmap rc bitmap' lst)
  case 0
  then show ?case by simp
next
  case (Suc n)
  show ?case
  proof (cases "List.find (is_free bitmap) [1..<ds]")
    case None
    with Suc.prems show ?thesis by simp
  next
    case (Some x)
    then have x: "1 \<le> x \<and> x \<le> ds - 1"
      by (auto simp add: find_Some_iff)
    obtain rc0 bm0 lst0 where r: "alloc_space ds (mark_space bitmap x True) n = (rc0, bm0, lst0)"
      by (cases "alloc_space ds (mark_space bitmap x True) n") auto
    with Suc.prems Some have "lst = x # lst0" by simp
    with Suc.IH[OF r] x show ?thesis by simp
  qed
qed

theorem alloc_space_in_range_witness:
  "alloc_space 720 (0xFF # replicate 127 0xFF) 3 = (Inr (), 0x8F # replicate 127 0xFF, [1, 2, 3])
   \<and> (1::nat) \<le> 1 \<and> (3::nat) \<le> 720 - 1"
proof -
  have a: "alloc_space 720 (0xFF # replicate 127 0xFF) 3
             = (Inr (), 0x8F # replicate 127 0xFF, [1, 2, 3])"
    by (simp add: alloc_eval del: upt_rec_numeral One_nat_def)
  from alloc_space_in_range[OF a] a show ?thesis by simp
qed

section \<open>Sector access\<close>

lemma length_fread_sector:
  "length buf = 128 \<Longrightarrow> length (snd (fread_sector file off buf)) = 128"
  by (simp add: fread_sector_def Let_def)

lemma fread_sector_full:
  "off + 128 \<le> length file \<Longrightarrow> length buf = 128 \<Longrightarrow>
   fread_sector file off buf = (1, take 128 (drop off file))"
  by (simp add: fread_sector_def Let_def)

lemma getsect_in_image:
  "in_image st sect \<Longrightarrow> length buf = 128 \<Longrightarrow> getsect st buf sect = Inr (sector_at st sect)"
  by (cases sect) (simp_all add: in_image_def getsect_def sector_at_def fread_sector_full)

lemma length_sector_at:
  "in_image st sect \<Longrightarrow> length (sector_at st sect) = 128"
  by (cases sect) (simp_all add: in_image_def sector_at_def)

lemma length_getsect:
  "length buf = 128 \<Longrightarrow> getsect st buf sect = Inr b \<Longrightarrow> length b = 128"
  by (auto simp add: getsect_def length_fread_sector split: if_splits)

lemma getsect_Inr:
  "0 < sect \<Longrightarrow> \<exists>b. getsect st buf sect = Inr b"
  by (simp add: getsect_def)

lemma putsect_Inr:
  "0 < sect \<Longrightarrow> \<exists>st'. putsect st buf sect = Inr st'"
  by (simp add: putsect_def)

lemma putsect_fields:
  "putsect st buf sect = Inr st' \<Longrightarrow> disk_size st' = disk_size st \<and> cvt_ending st' = cvt_ending st"
  by (auto simp add: putsect_def split: if_splits)

lemma take_drop_append_left:
  "k + n \<le> length xs \<Longrightarrow> take n (drop k (xs @ ys)) = take n (drop k xs)"
  by simp

lemma drop_append_right:
  "length xs \<le> k \<Longrightarrow> drop k (xs @ ys) = drop (k - length xs) ys"
  by simp

lemma fwrite_read_same:
  assumes "length buf = 128"
  shows "take 128 (drop off (snd (fwrite_sector file off buf))) = buf"
proof -
  define pre where "pre = take off file @ replicate (off - length file) (0::u8)"
  have l: "length pre = off" by (simp add: pre_def)
  have "snd (fwrite_sector file off buf) = pre @ (buf @ drop (off + 128) file)"
    using assms by (simp add: fwrite_sector_def pre_def)
  then have "drop off (snd (fwrite_sector file off buf)) = buf @ drop (off + 128) file"
    using l by simp
  then show ?thesis using assms by simp
qed

lemma fwrite_read_below:
  assumes "off' + 128 \<le> off" "off' + 128 \<le> length file"
  shows "take 128 (drop off' (snd (fwrite_sector file off buf))) = take 128 (drop off' file)"
proof -
  define post where "post = replicate (off - length file) (0::u8) @ take 128 buf @ drop (off + 128) file"
  have w: "snd (fwrite_sector file off buf) = take off file @ post"
    by (simp add: fwrite_sector_def post_def)
  have "off' + 128 \<le> length (take off file)" using assms by simp
  then have "take 128 (drop off' (take off file @ post)) = take 128 (drop off' (take off file))"
    by (rule take_drop_append_left)
  also have "\<dots> = take 128 (drop off' file)"
    using assms by (simp add: drop_take min_def)
  finally show ?thesis unfolding w .
qed

lemma fwrite_read_above:
  assumes "off + 128 \<le> off'" "off' + 128 \<le> length file" "length buf = 128"
  shows "take 128 (drop off' (snd (fwrite_sector file off buf))) = take 128 (drop off' file)"
proof -
  define pre where "pre = take off file @ buf"
  have l: "length pre = off + 128" using assms by (simp add: pre_def)
  have w: "snd (fwrite_sector file off buf) = pre @ drop (off + 128) file"
    using assms by (simp add: fwrite_sector_def pre_def)
  have "length pre \<le> off'" using l assms(1) by simp
  then have "drop off' (pre @ drop (off + 128) file) = drop (off' - length pre) (drop (off + 128) file)"
    by (rule drop_append_right)
  also have "\<dots> = drop off' file" using assms(1) l by simp
  finally show ?thesis unfolding w by simp
qed

lemma length_fwrite_sector:
  "length buf = 128 \<Longrightarrow> length (snd (fwrite_sector file off buf)) = max (length file) (off + 128)"
  by (simp add: fwrite_sector_def)

lemma putsect_same:
  assumes "putsect st buf sect = Inr st'" "length buf = 128"
  shows "sector_at st' sect = buf" "in_image st' sect"
  using assms fwrite_read_same[OF assms(2)]
  by (auto simp add: putsect_def sector_at_def in_image_def length_fwrite_sector split: if_splits)

lemma putsect_in_image:
  assumes "putsect st buf sect = Inr st'" "length buf = 128" "in_image st s"
  shows "in_image st' s"
  using assms
  by (auto simp add: putsect_def in_image_def length_fwrite_sector split: if_splits)

lemma putsect_length:
  assumes "putsect st buf sect = Inr st'" "length buf = 128" "in_image st sect"
  shows "length (disk st') = length (disk st)"
  using assms
  by (cases sect) (auto simp add: putsect_def in_image_def length_fwrite_sector split: if_splits)

lemma putsect_other:
  assumes "putsect st buf sect = Inr st'" "length buf = 128" "in_image st s" "s \<noteq> sect"
  shows "sector_at st' s = sector_at st s"
proof -
  from assms(1) have pos: "0 < sect"
    and d: "disk st' = snd (fwrite_sector (disk st) ((sect - 1) * 128 + 16) buf)"
    by (auto simp add: putsect_def split: if_splits)
  from assms(3) have s: "0 < s" "(s - 1) * 128 + 16 + 128 \<le> length (disk st)"
    by (cases s; simp add: in_image_def)+
  show ?thesis
  proof (cases "s < sect")
    case True
    then have "(s - 1) * 128 + 16 + 128 \<le> (sect - 1) * 128 + 16" using s(1) by (cases s; cases sect) auto
    then show ?thesis using s(2) d by (simp add: sector_at_def fwrite_read_below)
  next
    case False
    with assms(4) have "sect < s" by simp
    then have "(sect - 1) * 128 + 16 + 128 \<le> (s - 1) * 128 + 16" using pos by (cases s; cases sect) auto
    then show ?thesis using s(2) d assms(2) by (simp add: sector_at_def fwrite_read_above)
  qed
qed

lemma fwrite_sector_bytes:
  assumes "length buf = 128"
  shows "length (snd (fwrite_sector file off buf)) = max (length file) (off + 128)"
    and "i < length file \<Longrightarrow> i < off \<or> off + 128 \<le> i \<Longrightarrow>
           snd (fwrite_sector file off buf) ! i = file ! i"
    and "i < 128 \<Longrightarrow> snd (fwrite_sector file off buf) ! (off + i) = buf ! i"
    and "length file \<le> i \<Longrightarrow> i < off \<Longrightarrow> snd (fwrite_sector file off buf) ! i = 0"
proof -
  define pre where "pre = take off file @ replicate (off - length file) (0::u8)"
  have l: "length pre = off" by (simp add: pre_def)
  have w: "snd (fwrite_sector file off buf) = pre @ buf @ drop (off + 128) file"
    using assms by (simp add: fwrite_sector_def pre_def)
  show "length (snd (fwrite_sector file off buf)) = max (length file) (off + 128)"
    using assms by (rule length_fwrite_sector)
  show "snd (fwrite_sector file off buf) ! i = file ! i"
    if "i < length file" "i < off \<or> off + 128 \<le> i"
  proof (cases "i < off")
    case True
    then have "snd (fwrite_sector file off buf) ! i = pre ! i" unfolding w using l
      by (simp add: nth_append)
    also have "\<dots> = file ! i" using True that(1) by (simp add: pre_def nth_append)
    finally show ?thesis .
  next
    case False
    with that(2) have g: "off + 128 \<le> i" by simp
    have "snd (fwrite_sector file off buf) ! i = ((pre @ buf) @ drop (off + 128) file) ! i"
      unfolding w by simp
    also have "\<dots> = drop (off + 128) file ! (i - (off + 128))"
      using g l assms by (simp add: nth_append del: append_assoc)
    also have "\<dots> = file ! i" using g that(1) by simp
    finally show ?thesis .
  qed
  show "snd (fwrite_sector file off buf) ! (off + i) = buf ! i" if "i < 128"
    unfolding w using l assms that by (simp add: nth_append)
  show "snd (fwrite_sector file off buf) ! i = 0" if "length file \<le> i" "i < off"
  proof -
    have "snd (fwrite_sector file off buf) ! i = pre ! i" unfolding w using l that(2)
      by (simp add: nth_append)
    also have "\<dots> = 0" using that by (simp add: pre_def nth_append)
    finally show ?thesis .
  qed
qed

lemma putsect_bytes:
  assumes "putsect st buf sect = Inr st'" "length buf = 128"
  shows "length (disk st') = max (length (disk st)) (sect * 128 + 16)"
    and "\<forall>i < length (disk st). i < (sect - 1) * 128 + 16 \<or> sect * 128 + 16 \<le> i
           \<longrightarrow> disk st' ! i = disk st ! i"
proof -
  from assms(1) have pos: "0 < sect"
    and d: "disk st' = snd (fwrite_sector (disk st) ((sect - 1) * 128 + 16) buf)"
    by (auto simp add: putsect_def split: if_splits)
  from pos have e: "(sect - 1) * 128 + 16 + 128 = sect * 128 + 16" by (cases sect) simp_all
  show "length (disk st') = max (length (disk st)) (sect * 128 + 16)"
    unfolding d fwrite_sector_bytes(1)[OF assms(2)] e ..
  show "\<forall>i < length (disk st). i < (sect - 1) * 128 + 16 \<or> sect * 128 + 16 \<le> i
           \<longrightarrow> disk st' ! i = disk st ! i"
    unfolding d using fwrite_sector_bytes(2)[OF assms(2), of _ "disk st" "(sect - 1) * 128 + 16"]
    unfolding e by blast
qed

lemma length_take_drop_full:
  "(length (take 128 (drop off d)) = 128) = (off + 128 \<le> length d)"
  by auto

lemma nth_take_drop:
  "i < length (take n (drop off d)) \<Longrightarrow> take n (drop off d) ! i = d ! (off + i)"
proof -
  assume "i < length (take n (drop off d))"
  then have "i < n" "off \<le> length d" by auto
  then show ?thesis by (simp add: nth_drop)
qed

lemma fread_sector_count:
  assumes "0 < sect"
  shows "(fst (fread_sector (disk st) ((sect - 1) * 128 + 16) buf) = 1) = in_image st sect"
proof -
  from assms have e: "(sect - 1) * 128 + 16 + 128 = sect * 128 + 16" by (cases sect) simp_all
  have "(fst (fread_sector (disk st) ((sect - 1) * 128 + 16) buf) = 1)
      = (length (take 128 (drop ((sect - 1) * 128 + 16) (disk st))) = 128)"
    by (simp add: fread_sector_def Let_def del: length_take length_drop One_nat_def)
  also have "\<dots> = ((sect - 1) * 128 + 16 + 128 \<le> length (disk st))"
    by (rule length_take_drop_full)
  also have "\<dots> = in_image st sect" unfolding e using assms by (simp add: in_image_def)
  finally show ?thesis .
qed

lemma getsect_buffer:
  assumes "sect \<noteq> 0"
  shows "\<exists>b. getsect st buf sect = Inr b
      \<and> take (length (sector_at st sect)) b = sector_at st sect
      \<and> drop (length (sector_at st sect)) b = drop (length (sector_at st sect)) buf"
proof -
  define g where "g = take 128 (drop ((sect - 1) * 128 + 16) (disk st))"
  have "getsect st buf sect = Inr (g @ drop (length g) buf)"
    using assms unfolding getsect_def fread_sector_def Let_def g_def by simp
  moreover have "sector_at st sect = g" by (simp add: sector_at_def g_def)
  ultimately show ?thesis by simp
qed


text \<open>
  C7 (the claim as amended). \<^verbatim>\<open>getsect\<close> and \<^verbatim>\<open>putsect\<close> fail exactly when the sector
  asked for is 0, with \<open>InvalidSectorZero\<close>. For every other sector they return
  normally: the source never looks at what \<^verbatim>\<open>fseek\<close>, \<^verbatim>\<open>fread\<close> and \<^verbatim>\<open>fwrite\<close> return.
  The item count of \<^verbatim>\<open>fread\<close> is 1 exactly when the image holds the whole sector, and
  \<^verbatim>\<open>getsect\<close> returns also when it is not: its buffer then starts with the bytes the
  file has from the offset of the sector on (fewer than 128, possibly none) and keeps
  the bytes of the caller behind them. When the image holds the sector, the buffer is
  the sector. \<^verbatim>\<open>putsect\<close> stores the 128 bytes at the offset of the sector: the sector
  then reads back as the buffer, and the other sectors of the image are as before; so
  is every byte of the file outside these 128, and a file that ended before them now
  ends with them.
\<close>

theorem getsect_putsect_fail_only_on_zero:
  "(getsect st buf sect = Inl InvalidSectorZero) = (sect = 0)
   \<and> (\<exists>b. getsect st buf sect = Inr b) = (sect \<noteq> 0)
   \<and> (putsect st buf sect = Inl InvalidSectorZero) = (sect = 0)
   \<and> (\<exists>st'. putsect st buf sect = Inr st') = (sect \<noteq> 0)
   \<and> (sect \<noteq> 0 \<longrightarrow>
         (fst (fread_sector (disk st) ((sect - 1) * 128 + 16) buf) = 1) = in_image st sect
       \<and> length (sector_at st sect) = min 128 (length (disk st) - ((sect - 1) * 128 + 16))
       \<and> (\<forall>i < length (sector_at st sect).
             sector_at st sect ! i = disk st ! ((sect - 1) * 128 + 16 + i))
       \<and> (\<exists>b. getsect st buf sect = Inr b
             \<and> take (length (sector_at st sect)) b = sector_at st sect
             \<and> drop (length (sector_at st sect)) b = drop (length (sector_at st sect)) buf
             \<and> (length buf = 128 \<longrightarrow> length b = 128)
             \<and> (length buf = 128 \<and> in_image st sect \<longrightarrow> b = sector_at st sect)))
   \<and> (sect \<noteq> 0 \<and> length buf = 128 \<longrightarrow>
         (\<exists>st'. putsect st buf sect = Inr st'
             \<and> in_image st' sect \<and> sector_at st' sect = buf
             \<and> disk_size st' = disk_size st \<and> cvt_ending st' = cvt_ending st
             \<and> (\<forall>s. in_image st s \<and> s \<noteq> sect \<longrightarrow>
                    in_image st' s \<and> sector_at st' s = sector_at st s)
             \<and> length (disk st') = max (length (disk st)) (sect * 128 + 16)
             \<and> (\<forall>i < length (disk st). i < (sect - 1) * 128 + 16 \<or> sect * 128 + 16 \<le> i
                    \<longrightarrow> disk st' ! i = disk st ! i)
             \<and> (\<forall>b2. length b2 = 128 \<longrightarrow> getsect st' b2 sect = Inr buf)))"
proof -
  have z: "(getsect st buf sect = Inl InvalidSectorZero) = (sect = 0)"
    "(\<exists>b. getsect st buf sect = Inr b) = (sect \<noteq> 0)"
    "(putsect st buf sect = Inl InvalidSectorZero) = (sect = 0)"
    "(\<exists>st'. putsect st buf sect = Inr st') = (sect \<noteq> 0)"
    by (simp_all add: getsect_def putsect_def)
  have rd: "(fst (fread_sector (disk st) ((sect - 1) * 128 + 16) buf) = 1) = in_image st sect
       \<and> length (sector_at st sect) = min 128 (length (disk st) - ((sect - 1) * 128 + 16))
       \<and> (\<forall>i < length (sector_at st sect).
             sector_at st sect ! i = disk st ! ((sect - 1) * 128 + 16 + i))
       \<and> (\<exists>b. getsect st buf sect = Inr b
             \<and> take (length (sector_at st sect)) b = sector_at st sect
             \<and> drop (length (sector_at st sect)) b = drop (length (sector_at st sect)) buf
             \<and> (length buf = 128 \<longrightarrow> length b = 128)
             \<and> (length buf = 128 \<and> in_image st sect \<longrightarrow> b = sector_at st sect))"
    if nz: "sect \<noteq> 0"
  proof -
    from nz have c: "(fst (fread_sector (disk st) ((sect - 1) * 128 + 16) buf) = 1) = in_image st sect"
      by (intro fread_sector_count) simp
    have n: "length (sector_at st sect) = min 128 (length (disk st) - ((sect - 1) * 128 + 16))"
      by (simp add: sector_at_def)
    have e: "\<forall>i < length (sector_at st sect).
             sector_at st sect ! i = disk st ! ((sect - 1) * 128 + 16 + i)"
      unfolding sector_at_def using nth_take_drop by blast
    from getsect_buffer[OF nz, of st buf] obtain b where b:
      "getsect st buf sect = Inr b"
      "take (length (sector_at st sect)) b = sector_at st sect"
      "drop (length (sector_at st sect)) b = drop (length (sector_at st sect)) buf"
      by blast
    have l: "length b = 128" if "length buf = 128"
      using length_getsect[OF that b(1)] .
    have f: "b = sector_at st sect" if "length buf = 128" "in_image st sect"
      using getsect_in_image[OF that(2,1)] b(1) by simp
    from c n e b l f show ?thesis by blast
  qed
  have wr: "\<exists>st'. putsect st buf sect = Inr st'
             \<and> in_image st' sect \<and> sector_at st' sect = buf
             \<and> disk_size st' = disk_size st \<and> cvt_ending st' = cvt_ending st
             \<and> (\<forall>s. in_image st s \<and> s \<noteq> sect \<longrightarrow>
                    in_image st' s \<and> sector_at st' s = sector_at st s)
             \<and> length (disk st') = max (length (disk st)) (sect * 128 + 16)
             \<and> (\<forall>i < length (disk st). i < (sect - 1) * 128 + 16 \<or> sect * 128 + 16 \<le> i
                    \<longrightarrow> disk st' ! i = disk st ! i)
             \<and> (\<forall>b2. length b2 = 128 \<longrightarrow> getsect st' b2 sect = Inr buf)"
    if nz: "sect \<noteq> 0" and lb: "length buf = 128"
  proof -
    from nz obtain st' where p: "putsect st buf sect = Inr st'" by (auto simp add: putsect_def)
    note S = putsect_same[OF p lb]
    have g: "getsect st' b2 sect = Inr buf" if "length b2 = 128" for b2
      using getsect_in_image[OF S(2) that] S(1) by simp
    have o: "in_image st' s \<and> sector_at st' s = sector_at st s" if "in_image st s" "s \<noteq> sect" for s
      using putsect_in_image[OF p lb that(1)] putsect_other[OF p lb that] by simp
    from p S putsect_fields[OF p] g o putsect_bytes[OF p lb] show ?thesis by auto
  qed
  from z rd wr show ?thesis by blast
qed

text \<open>
  C7 as stated fails: on a single density image (92176 bytes) sector 800 lies past
  the end of the file, \<^verbatim>\<open>fread\<close> delivers no item, and \<^verbatim>\<open>getsect\<close> still returns
  normally, the caller's buffer unchanged.
\<close>

theorem getsect_ignores_short_read:
  "fst (fread_sector (disk \<lparr>disk = replicate 92176 0, disk_size = 720, cvt_ending = False\<rparr>)
          ((800 - 1) * 128 + 16) (replicate 128 0xAA)) = 0
   \<and> getsect \<lparr>disk = replicate 92176 0, disk_size = 720, cvt_ending = False\<rparr>
         (replicate 128 0xAA) 800 = Inr (replicate 128 0xAA)"
  by (simp add: getsect_def fread_sector_def)

theorem getsect_putsect_fail_only_on_zero_witness:
  "fst (fread_sector (disk \<lparr>disk = replicate 92176 0, disk_size = 720, cvt_ending = False\<rparr>)
          ((800 - 1) * 128 + 16) (replicate 128 0xAA)) = 0
   \<and> getsect \<lparr>disk = replicate 92176 0, disk_size = 720, cvt_ending = False\<rparr>
         (replicate 128 0xAA) 800 = Inr (replicate 128 0xAA)
   \<and> fst (fread_sector (disk \<lparr>disk = replicate 100 0x11, disk_size = 720, cvt_ending = False\<rparr>)
          ((1 - 1) * 128 + 16) (replicate 128 0xAA)) = 0
   \<and> getsect \<lparr>disk = replicate 100 0x11, disk_size = 720, cvt_ending = False\<rparr>
         (replicate 128 0xAA) 1 = Inr (replicate 84 0x11 @ replicate 44 0xAA)
   \<and> getsect \<lparr>disk = replicate 92176 0, disk_size = 720, cvt_ending = False\<rparr>
         (replicate 128 0xAA) 5 = Inr (replicate 128 0)
   \<and> getsect \<lparr>disk = replicate 92176 0, disk_size = 720, cvt_ending = False\<rparr>
         (replicate 128 0xAA) 0 = Inl InvalidSectorZero
   \<and> putsect \<lparr>disk = replicate 92176 0, disk_size = 720, cvt_ending = False\<rparr>
         (replicate 128 0xAA) 0 = Inl InvalidSectorZero
   \<and> (\<exists>st'. putsect \<lparr>disk = replicate 92176 0, disk_size = 720, cvt_ending = False\<rparr>
               (replicate 128 0xAA) 5 = Inr st'
          \<and> sector_at st' 5 = replicate 128 0xAA
          \<and> sector_at st' 4 = replicate 128 0
          \<and> getsect st' (replicate 128 0) 5 = Inr (replicate 128 0xAA))"
proof -
  define s0 where "s0 = \<lparr>disk = replicate 92176 (0::u8), disk_size = 720, cvt_ending = False\<rparr>"
  define s1 where "s1 = \<lparr>disk = replicate 100 (0x11::u8), disk_size = 720, cvt_ending = False\<rparr>"
  define buf where "buf = replicate 128 (0xAA::u8)"
  have lb: "length buf = 128" by (simp add: buf_def)
  have i: "\<not> in_image s0 800" "\<not> in_image s1 1" "in_image s0 5" "in_image s0 4"
    by (simp_all add: s0_def s1_def in_image_def)
  have sa: "sector_at s0 800 = []" "sector_at s1 1 = replicate 84 0x11"
    "sector_at s0 5 = replicate 128 0" "sector_at s0 4 = replicate 128 0"
    by (simp_all add: s0_def s1_def sector_at_def)
  note A = getsect_putsect_fail_only_on_zero[of s0 buf 800]
  note B = getsect_putsect_fail_only_on_zero[of s1 buf 1]
  note C = getsect_putsect_fail_only_on_zero[of s0 buf 5]
  note Z = getsect_putsect_fail_only_on_zero[of s0 buf 0]
  from A i(1) have a1: "fst (fread_sector (disk s0) ((800 - 1) * 128 + 16) buf) \<noteq> 1" by simp
  have "fst (fread_sector (disk s0) ((800 - 1) * 128 + 16) buf) \<le> 1"
    by (simp add: fread_sector_def Let_def)
  with a1 have a: "fst (fread_sector (disk s0) ((800 - 1) * 128 + 16) buf) = 0" by linarith
  from A obtain b where "getsect s0 buf 800 = Inr b"
    "drop (length (sector_at s0 800)) b = drop (length (sector_at s0 800)) buf"
    by auto
  then have a2: "getsect s0 buf 800 = Inr buf" by (simp add: sa)
  from B i(2) have b1: "fst (fread_sector (disk s1) ((1 - 1) * 128 + 16) buf) \<noteq> 1" by simp
  have "fst (fread_sector (disk s1) ((1 - 1) * 128 + 16) buf) \<le> 1"
    by (simp add: fread_sector_def Let_def)
  with b1 have b: "fst (fread_sector (disk s1) ((1 - 1) * 128 + 16) buf) = 0" by linarith
  from B obtain b' where g: "getsect s1 buf 1 = Inr b'"
    "take (length (sector_at s1 1)) b' = sector_at s1 1"
    "drop (length (sector_at s1 1)) b' = drop (length (sector_at s1 1)) buf"
    by auto
  have "b' = take 84 b' @ drop 84 b'" by simp
  also have "\<dots> = replicate 84 0x11 @ replicate 44 0xAA"
    using g(2,3)[unfolded sa] by (simp add: buf_def)
  finally have b2: "getsect s1 buf 1 = Inr (replicate 84 0x11 @ replicate 44 0xAA)"
    using g(1) by simp
  from C i(3) lb have c1: "getsect s0 buf 5 = Inr (replicate 128 0)" by (auto simp add: sa)
  from Z have z: "getsect s0 buf 0 = Inl InvalidSectorZero" "putsect s0 buf 0 = Inl InvalidSectorZero"
    by simp_all
  from C lb obtain st' where w:
    "putsect s0 buf 5 = Inr st'" "sector_at st' 5 = buf"
    "\<forall>s. in_image s0 s \<and> s \<noteq> 5 \<longrightarrow> in_image st' s \<and> sector_at st' s = sector_at s0 s"
    "\<forall>b2. length b2 = 128 \<longrightarrow> getsect st' b2 5 = Inr buf"
    by auto
  from w(3) i(4) have w3: "sector_at st' 4 = replicate 128 0" by (simp add: sa)
  from w(4) have w4: "getsect st' (replicate 128 0) 5 = Inr buf" by simp
  from w(1,2) w3 w4 have c2: "\<exists>st'. putsect s0 buf 5 = Inr st' \<and> sector_at st' 5 = buf
      \<and> sector_at st' 4 = replicate 128 0 \<and> getsect st' (replicate 128 0) 5 = Inr buf"
    by blast
  from a a2 b b2 c1 z c2 show ?thesis unfolding s0_def s1_def buf_def by blast
qed

section \<open>The bitmap on the image\<close>

lemma count_free_take: "count_free (take n xs) n = count_free xs n"
  by (induction xs n rule: count_free.induct) simp_all

lemma count_free_append: "n \<le> length xs \<Longrightarrow> count_free (xs @ ys) n = count_free xs n"
  by (induction xs n rule: count_free.induct) simp_all

lemma count_free_le: "count_free xs n \<le> 8 * n"
proof (induction xs n rule: count_free.induct)
  case (3 b bitmap len)
  have "length (filter (\<lambda>x. b AND x \<noteq> 0) [1, 2, 4, 8, 16, 32, 64, 128]) \<le> 8"
    by (rule order_trans[OF length_filter_le]) simp
  with 3 show ?case by simp
qed simp_all

lemma le16_of_nat: "c < 65536 \<Longrightarrow> le16 (of_nat c) (of_nat (c div 256)) = c"
  by (simp add: le16_def unat_of_nat)

lemma length_memcpy:
  "d + n \<le> length dst \<Longrightarrow> s + n \<le> length src \<Longrightarrow> length (memcpy dst d src s n) = length dst"
  by (simp add: memcpy_def)

lemma getbitmap_in_image:
  assumes "in_image st 360" "length u = 128" "disk_size st = 1024 \<Longrightarrow> in_image st 1024"
  shows "getbitmap st u bm chk =
    Inr (take 90 (drop 10 (sector_at st 360))
           @ (if disk_size st = 1024 then take 38 (drop 84 (sector_at st 1024)) @ drop 128 bm
              else drop 90 bm),
         (if chk then
            [if count_free (take 90 (drop 10 (sector_at st 360))) 90
                  \<noteq> le16 (sector_at st 360 ! 3) (sector_at st 360 ! 4)
             then CountMismatch (count_free (take 90 (drop 10 (sector_at st 360))) 90)
                    (le16 (sector_at st 360 ! 3) (sector_at st 360 ! 4))
             else CountOK (count_free (take 90 (drop 10 (sector_at st 360))) 90),
             if le16 (sector_at st 360 ! 1) (sector_at st 360 ! 2)
                  \<noteq> (if disk_size st = 1024 then 1011 else 707)
             then TotalWrong (le16 (sector_at st 360 ! 1) (sector_at st 360 ! 2)) else TotalOK,
             if sector_at st 360 ! 0 = 2 then TypeOK else TypeWrong (unat (sector_at st 360 ! 0))]
            @ (if disk_size st = 1024 then
                 [if count_free (take 38 (drop 84 (sector_at st 1024))) 38
                       \<noteq> le16 (sector_at st 1024 ! 122) (sector_at st 1024 ! 123)
                  then Count2Mismatch (count_free (take 38 (drop 84 (sector_at st 1024))) 38)
                         (le16 (sector_at st 1024 ! 122) (sector_at st 1024 ! 123))
                  else Count2OK (count_free (take 38 (drop 84 (sector_at st 1024))) 38)]
               else [])
          else []))"
proof -
  have l1: "length (sector_at st 360) = 128" using assms(1) by (rule length_sector_at)
  have g1: "getsect st u 360 = Inr (sector_at st 360)" using assms(1,2) by (rule getsect_in_image)
  show ?thesis
  proof (cases "disk_size st = 1024")
    case False
    then show ?thesis using g1 l1
      by (simp add: getbitmap_def memcpy_def Let_def count_free_append del: One_nat_def)
  next
    case True
    have l2: "length (sector_at st 1024) = 128" using assms(3)[OF True] by (rule length_sector_at)
    have g2: "getsect st u 1024 = Inr (sector_at st 1024)"
      using assms(3)[OF True] assms(2) by (rule getsect_in_image)
    show ?thesis using True g1 g2 l1 l2
      by (simp add: getbitmap_def memcpy_def Let_def count_free_append del: One_nat_def)
  qed
qed

text \<open>The sector putbitmap writes to the VTOC, and the one it writes to VTOC2.\<close>

lemma putbitmap_unfold:
  assumes "length u = 128" "length bitmap = 128"
  shows "\<exists>vtoc0 st1 v0 st'.
      getsect st u 360 = Inr vtoc0 \<and> length vtoc0 = 128
    \<and> putsect st ((memcpy vtoc0 10 bitmap 0 90)
                     [3 := of_nat (count_free bitmap 90),
                      4 := of_nat (count_free bitmap 90 div 256)]) 360 = Inr st1
    \<and> getsect st1 u 1024 = Inr v0 \<and> length v0 = 128
    \<and> putsect st1 ((memcpy v0 0 bitmap 6 122)
                     [122 := of_nat (count_free (drop 90 bitmap) 38),
                      123 := of_nat (count_free (drop 90 bitmap) 38 div 256)]) 1024 = Inr st'
    \<and> putbitmap st u bitmap = (Inr (), if disk_size st = 1024 then st' else st1)"
proof -
  obtain vtoc0 where g1: "getsect st u 360 = Inr vtoc0"
    using getsect_Inr[of 360] by auto
  obtain st1 where p1: "putsect st ((memcpy vtoc0 10 bitmap 0 90)
                     [3 := of_nat (count_free bitmap 90),
                      4 := of_nat (count_free bitmap 90 div 256)]) 360 = Inr st1"
    using putsect_Inr[of 360] by auto
  obtain v0 where g2: "getsect st1 u 1024 = Inr v0"
    using getsect_Inr[of 1024] by auto
  obtain st' where p2: "putsect st1 ((memcpy v0 0 bitmap 6 122)
                     [122 := of_nat (count_free (drop 90 bitmap) 38),
                      123 := of_nat (count_free (drop 90 bitmap) 38 div 256)]) 1024 = Inr st'"
    using putsect_Inr[of 1024] by auto
  have ds: "disk_size st1 = disk_size st" using putsect_fields[OF p1] by simp
  have "putbitmap st u bitmap = (Inr (), if disk_size st = 1024 then st' else st1)"
    using g1 p1 g2 p2 ds by (simp add: putbitmap_def Let_def del: One_nat_def)
  moreover have "length vtoc0 = 128" "length v0 = 128"
    using length_getsect[OF assms(1) g1] length_getsect[OF assms(1) g2] by simp_all
  ultimately show ?thesis using g1 p1 g2 p2 by blast
qed

lemma vtoc_written:
  assumes "length vtoc0 = 128" "length bitmap = 128"
  defines "c \<equiv> count_free bitmap 90"
  defines "v \<equiv> (memcpy vtoc0 10 bitmap 0 90)[3 := of_nat c, 4 := of_nat (c div 256)]"
  shows "length v = 128" "take 90 (drop 10 v) = take 90 bitmap"
    "le16 (v ! 3) (v ! 4) = c" "v ! 0 = vtoc0 ! 0" "v ! 1 = vtoc0 ! 1" "v ! 2 = vtoc0 ! 2"
proof -
  have c: "c < 65536" using count_free_le[of bitmap 90] by (simp add: c_def)
  show "length v = 128" using assms by (simp add: v_def memcpy_def)
  show "take 90 (drop 10 v) = take 90 bitmap"
    using assms by (simp add: v_def memcpy_def drop_update_cancel)
  show "le16 (v ! 3) (v ! 4) = c"
    using assms(1,2) le16_of_nat[OF c] by (simp add: v_def memcpy_def nth_append)
  show "v ! 0 = vtoc0 ! 0" "v ! 1 = vtoc0 ! 1" "v ! 2 = vtoc0 ! 2"
    using assms(1,2) by (simp_all add: v_def memcpy_def nth_append)
qed

lemma vtoc2_written:
  assumes "length v0 = 128" "length bitmap = 128"
  defines "c \<equiv> count_free (drop 90 bitmap) 38"
  defines "v \<equiv> (memcpy v0 0 bitmap 6 122)[122 := of_nat c, 123 := of_nat (c div 256)]"
  shows "length v = 128" "take 122 v = drop 6 bitmap"
    "le16 (v ! 122) (v ! 123) = c" "drop 124 v = drop 124 v0"
proof -
  have c: "c < 65536" using count_free_le[of "drop 90 bitmap" 38] by (simp add: c_def)
  show "length v = 128" using assms by (simp add: v_def memcpy_def)
  show "take 122 v = drop 6 bitmap"
    using assms by (simp add: v_def memcpy_def)
  show "le16 (v ! 122) (v ! 123) = c"
    using assms(1,2) le16_of_nat[OF c] by (simp add: v_def memcpy_def nth_append)
  show "drop 124 v = drop 124 v0"
    using assms(1,2) by (simp add: v_def memcpy_def drop_update_cancel)
qed

lemma putbitmap_effect:
  assumes "length u = 128" "length bitmap = 128"
  shows "\<exists>st'. putbitmap st u bitmap = (Inr (), st')
     \<and> disk_size st' = disk_size st \<and> cvt_ending st' = cvt_ending st
     \<and> in_image st' 360
     \<and> take 90 (drop 10 (sector_at st' 360)) = take 90 bitmap
     \<and> le16 (sector_at st' 360 ! 3) (sector_at st' 360 ! 4) = count_free bitmap 90
     \<and> (disk_size st = 1024 \<longrightarrow>
          in_image st' 1024
        \<and> take 122 (sector_at st' 1024) = drop 6 bitmap
        \<and> le16 (sector_at st' 1024 ! 122) (sector_at st' 1024 ! 123)
            = count_free (drop 90 bitmap) 38)
     \<and> (\<forall>s. in_image st s \<longrightarrow> in_image st' s)
     \<and> (\<forall>s. in_image st s \<longrightarrow> s \<noteq> 360 \<longrightarrow> s \<noteq> 1024 \<longrightarrow> sector_at st' s = sector_at st s)"
proof -
  define c where "c = count_free bitmap 90"
  define c2 where "c2 = count_free (drop 90 bitmap) 38"
  from putbitmap_unfold[OF assms, of st]
  obtain vtoc0 st1 v0 st2 where
        g1: "getsect st u 360 = Inr vtoc0" and l1: "length vtoc0 = 128"
    and p1: "putsect st ((memcpy vtoc0 10 bitmap 0 90)[3 := of_nat c, 4 := of_nat (c div 256)]) 360
               = Inr st1"
    and g2: "getsect st1 u 1024 = Inr v0" and l2: "length v0 = 128"
    and p2: "putsect st1 ((memcpy v0 0 bitmap 6 122)[122 := of_nat c2, 123 := of_nat (c2 div 256)]) 1024
               = Inr st2"
    and r: "putbitmap st u bitmap = (Inr (), if disk_size st = 1024 then st2 else st1)"
    unfolding c_def c2_def by blast
  define v where "v = (memcpy vtoc0 10 bitmap 0 90)[3 := of_nat c, 4 := of_nat (c div 256)]"
  define w where "w = (memcpy v0 0 bitmap 6 122)[122 := of_nat c2, 123 := of_nat (c2 div 256)]"
  note V = vtoc_written[OF l1 assms(2), folded c_def, folded v_def]
  note W = vtoc2_written[OF l2 assms(2), folded c2_def, folded w_def]
  note p1' = p1[folded v_def] and p2' = p2[folded w_def]
  have s1: "sector_at st1 360 = v" "in_image st1 360"
    using putsect_same[OF p1' V(1)] by simp_all
  have f1: "disk_size st1 = disk_size st" "cvt_ending st1 = cvt_ending st"
    using putsect_fields[OF p1'] by simp_all
  have i1: "in_image st s \<Longrightarrow> in_image st1 s" for s
    by (rule putsect_in_image[OF p1' V(1)])
  have o1: "in_image st s \<Longrightarrow> s \<noteq> 360 \<Longrightarrow> sector_at st1 s = sector_at st s" for s
    by (rule putsect_other[OF p1' V(1)])
  show ?thesis
  proof (cases "disk_size st = 1024")
    case False
    with r have "putbitmap st u bitmap = (Inr (), st1)" by simp
    with False s1 f1 i1 o1 V c_def show ?thesis by auto
  next
    case True
    with r have res: "putbitmap st u bitmap = (Inr (), st2)" by simp
    have s2: "sector_at st2 1024 = w" "in_image st2 1024"
      using putsect_same[OF p2' W(1)] by simp_all
    have f2: "disk_size st2 = disk_size st" "cvt_ending st2 = cvt_ending st"
      using putsect_fields[OF p2'] f1 by simp_all
    have i2: "in_image st1 s \<Longrightarrow> in_image st2 s" for s
      by (rule putsect_in_image[OF p2' W(1)])
    have o2: "in_image st1 s \<Longrightarrow> s \<noteq> 1024 \<Longrightarrow> sector_at st2 s = sector_at st1 s" for s
      by (rule putsect_other[OF p2' W(1)])
    have s360: "sector_at st2 360 = v" using o2[OF s1(2)] s1(1) by simp
    have "\<forall>s. in_image st s \<longrightarrow> s \<noteq> 360 \<longrightarrow> s \<noteq> 1024 \<longrightarrow> sector_at st2 s = sector_at st s"
      using o1 o2 i1 by simp
    moreover have "\<forall>s. in_image st s \<longrightarrow> in_image st2 s" using i1 i2 by simp
    ultimately show ?thesis
      using res f2 s2 s360 i2[OF s1(2)] V W c_def c2_def by auto
  qed
qed

lemma take_drop_take: "n + k \<le> m \<Longrightarrow> take n (drop k (take m xs)) = take n (drop k xs)"
  by (simp add: drop_take)

text \<open>
  C4. On every image and for every bitmap (the arrays being the 128 byte arrays of the
  source), \<^verbatim>\<open>putbitmap\<close> succeeds, and \<^verbatim>\<open>getbitmap\<close> in check mode on the state it
  leaves reads the same base region back and reports that the VTOC count matches the
  bitmap (with the count \<^verbatim>\<open>putbitmap\<close> computed) and no mismatch of a count; with
  \<^verbatim>\<open>disk_size = 1024\<close> it reads the whole bitmap back and reports the same for VTOC2.
\<close>

theorem putbitmap_getbitmap_counts_match:
  assumes "length u = 128" "length bitmap = 128" "length u' = 128"
  shows "\<exists>st' bm' msgs.
       putbitmap st u bitmap = (Inr (), st')
     \<and> getbitmap st' u' bm True = Inr (bm', msgs)
     \<and> take 90 bm' = take 90 bitmap
     \<and> CountOK (count_free bitmap 90) \<in> set msgs
     \<and> (\<forall>a b. CountMismatch a b \<notin> set msgs)
     \<and> (\<forall>a b. Count2Mismatch a b \<notin> set msgs)
     \<and> (if disk_size st = 1024
          then Count2OK (count_free (drop 90 bitmap) 38) \<in> set msgs \<and> take 128 bm' = bitmap
          else \<forall>a. Count2OK a \<notin> set msgs)"
proof -
  from putbitmap_effect[OF assms(1,2), of st] obtain st' where
        r: "putbitmap st u bitmap = (Inr (), st')"
    and ds: "disk_size st' = disk_size st"
    and i: "in_image st' 360"
    and b: "take 90 (drop 10 (sector_at st' 360)) = take 90 bitmap"
    and c: "le16 (sector_at st' 360 ! 3) (sector_at st' 360 ! 4) = count_free bitmap 90"
    and ed: "disk_size st = 1024 \<longrightarrow>
          in_image st' 1024
        \<and> take 122 (sector_at st' 1024) = drop 6 bitmap
        \<and> le16 (sector_at st' 1024 ! 122) (sector_at st' 1024 ! 123)
            = count_free (drop 90 bitmap) 38"
    by blast
  have i2: "disk_size st' = 1024 \<Longrightarrow> in_image st' 1024" using ed ds by simp
  note g = getbitmap_in_image[OF i assms(3) i2, of bm True]
  have cf: "count_free (take 90 bitmap) 90 = count_free bitmap 90" by (rule count_free_take)
  show ?thesis
  proof (cases "disk_size st = 1024")
    case False
    with g r b c cf ds assms(2) show ?thesis by simp
  next
    case True
    have "take 38 (drop 84 (take 122 (sector_at st' 1024))) = take 38 (drop 84 (sector_at st' 1024))"
      by (rule take_drop_take) simp
    moreover have "take 38 (drop 84 (take 122 (sector_at st' 1024))) = drop 90 bitmap"
      using ed True assms(2) by simp
    ultimately have u: "take 38 (drop 84 (sector_at st' 1024)) = drop 90 bitmap" by simp
    have "take 90 bitmap @ drop 90 bitmap = bitmap" by simp
    with g r b c cf ds ed True u assms(2) show ?thesis by simp
  qed
qed

theorem putbitmap_getbitmap_counts_match_witness:
  "length (replicate 128 (0::u8)) = 128 \<and> length (0x0F # replicate 127 (0xFF::u8)) = 128
   \<and> (\<exists>st' bm' msgs.
         putbitmap \<lparr>disk = replicate 92176 0, disk_size = 720, cvt_ending = False\<rparr>
           (replicate 128 0) (0x0F # replicate 127 0xFF) = (Inr (), st')
       \<and> getbitmap st' (replicate 128 0) (replicate 128 0) True = Inr (bm', msgs)
       \<and> CountOK (count_free (0x0F # replicate 127 0xFF) 90) \<in> set msgs)
   \<and> (\<exists>st' bm' msgs.
         putbitmap \<lparr>disk = replicate 133136 0, disk_size = 1024, cvt_ending = False\<rparr>
           (replicate 128 0) (0x0F # replicate 127 0xFF) = (Inr (), st')
       \<and> getbitmap st' (replicate 128 0) (replicate 128 0) True = Inr (bm', msgs)
       \<and> CountOK (count_free (0x0F # replicate 127 0xFF) 90) \<in> set msgs
       \<and> Count2OK (count_free (drop 90 (0x0F # replicate 127 0xFF)) 38) \<in> set msgs)"
proof -
  have l: "length (replicate 128 (0::u8)) = 128" "length (0x0F # replicate 127 (0xFF::u8)) = 128"
    by simp_all
  from putbitmap_getbitmap_counts_match[OF l(1) l(2) l(1),
         of "\<lparr>disk = replicate 92176 0, disk_size = 720, cvt_ending = False\<rparr>" "replicate 128 0"]
  have a: "\<exists>st' bm' msgs.
         putbitmap \<lparr>disk = replicate 92176 0, disk_size = 720, cvt_ending = False\<rparr>
           (replicate 128 0) (0x0F # replicate 127 0xFF) = (Inr (), st')
       \<and> getbitmap st' (replicate 128 0) (replicate 128 0) True = Inr (bm', msgs)
       \<and> CountOK (count_free (0x0F # replicate 127 0xFF) 90) \<in> set msgs"
    by (elim exE conjE, intro exI conjI) assumption+
  from putbitmap_getbitmap_counts_match[OF l(1) l(2) l(1),
         of "\<lparr>disk = replicate 133136 0, disk_size = 1024, cvt_ending = False\<rparr>" "replicate 128 0"]
  have b: "\<exists>st' bm' msgs.
         putbitmap \<lparr>disk = replicate 133136 0, disk_size = 1024, cvt_ending = False\<rparr>
           (replicate 128 0) (0x0F # replicate 127 0xFF) = (Inr (), st')
       \<and> getbitmap st' (replicate 128 0) (replicate 128 0) True = Inr (bm', msgs)
       \<and> CountOK (count_free (0x0F # replicate 127 0xFF) 90) \<in> set msgs
       \<and> Count2OK (count_free (drop 90 (0x0F # replicate 127 0xFF)) 38) \<in> set msgs"
    by (elim exE conjE) (simp split: if_splits)
  from l a b show ?thesis by blast
qed

lemma getbitmap_mirror_independent:
  assumes "disk_size s = 1024" "in_image s 360" "in_image s 1024" "length u = 128" "length m = 84"
    and "putsect s (m @ drop 84 (sector_at s 1024)) 1024 = Inr s2"
  shows "getbitmap s2 u bm chk = getbitmap s u bm chk"
proof -
  have l: "length (m @ drop 84 (sector_at s 1024)) = 128"
    using assms(5) length_sector_at[OF assms(3)] by simp
  have a: "sector_at s2 1024 = m @ drop 84 (sector_at s 1024)" "in_image s2 1024"
    using putsect_same[OF assms(6) l] by simp_all
  have b: "sector_at s2 360 = sector_at s 360" by (rule putsect_other[OF assms(6) l assms(2)]) simp
  have c: "in_image s2 360" by (rule putsect_in_image[OF assms(6) l assms(2)])
  have d: "disk_size s2 = 1024" using putsect_fields[OF assms(6)] assms(1) by simp
  have e: "take 38 (drop 84 (sector_at s2 1024)) = take 38 (drop 84 (sector_at s 1024))"
    "sector_at s2 1024 ! 122 = sector_at s 1024 ! 122"
    "sector_at s2 1024 ! 123 = sector_at s 1024 ! 123"
    using assms(5) length_sector_at[OF assms(3)] by (simp_all add: a nth_append)
  show ?thesis
    using getbitmap_in_image[OF c assms(4), of bm chk] getbitmap_in_image[OF assms(2,4), of bm chk]
      a(2) assms(1,3) b d e by simp
qed

lemma count_free_byte:
  "length (filter (\<lambda>x. b AND x \<noteq> 0) [1, 2, 4, 8, 16, 32, 64, 128 :: u8])
     = length (filter (\<lambda>j. bit b (7 - j)) [0..<8])"
proof -
  have e: "[0..<8] = [0, 1, 2, 3, 4, 5, 6, 7 :: nat]" by code_simp
  have m: "[1, 2, 4, 8, 16, 32, 64, 128 :: u8] = map (\<lambda>i. 2 ^ i) [0..<8]"
    unfolding e by simp
  have r: "map (\<lambda>j. 7 - j) [0..<8] = rev [0..<8]"
    unfolding e by simp
  have "length (filter (\<lambda>x. b AND x \<noteq> 0) [1, 2, 4, 8, 16, 32, 64, 128 :: u8])
      = length (filter (\<lambda>i. bit b i) [0..<8])"
    unfolding m filter_map length_map by (simp add: comp_def and_exp_eq_0_iff_not_bit del: upt_rec_numeral)
  also have "\<dots> = length (filter (\<lambda>i. bit b i) (rev [0..<8]))"
    unfolding rev_filter[symmetric] by simp
  also have "\<dots> = length (filter (\<lambda>j. bit b (7 - j)) [0..<8])"
    unfolding r[symmetric] filter_map length_map by (simp add: comp_def)
  finally show ?thesis .
qed

lemma count_free_bits:
  "n \<le> length bs \<Longrightarrow> count_free bs n = length (filter (is_free bs) [0..<8 * n])"
proof (induction bs n rule: count_free.induct)
  case (1 bitmap)
  then show ?case by simp
next
  case (2 len)
  then show ?case by simp
next
  case (3 b bitmap len)
  have s: "[0..<8 * Suc len] = [0..<8] @ map (\<lambda>x. x + 8) [0..<8 * len]"
    using upt_add_eq_append[of 0 8 "8 * len"]
    by (simp add: map_add_upt add.commute del: upt_rec_numeral)
  have a: "filter (is_free (b # bitmap)) [0..<8] = filter (\<lambda>j. bit b (7 - j)) [0..<8]"
    by (rule filter_cong) (simp_all add: is_free_bit)
  have c: "is_free (b # bitmap) (x + 8) = is_free bitmap x" for x
  proof -
    have "(x + 8) div 8 = Suc (x div 8)" "(x + 8) mod 8 = x mod 8" by presburger+
    then show ?thesis by (simp add: is_free_bit)
  qed
  have l: "length (filter (is_free (b # bitmap)) [0..<8 * Suc len])
      = length (filter (\<lambda>j. bit b (7 - j)) [0..<8]) + length (filter (is_free bitmap) [0..<8 * len])"
    unfolding s filter_append a filter_map length_append length_map by (simp add: comp_def c)
  have k: "count_free (b # bitmap) (Suc len)
      = length (filter (\<lambda>j. bit b (7 - j)) [0..<8]) + count_free bitmap len"
    unfolding count_free.simps count_free_byte ..
  from 3 have "count_free bitmap len = length (filter (is_free bitmap) [0..<8 * len])" by simp
  then show ?case unfolding l k by (rule arg_cong)
qed

lemma count_free_upper:
  assumes "length bitmap = 128"
  shows "count_free (drop 90 bitmap) 38 = length (filter (is_free bitmap) [720..<1024])"
proof -
  have u: "[720..<1024] = map (\<lambda>x. x + 720) [0..<304]"
    by (simp add: map_add_upt del: upt_rec_numeral)
  have c: "is_free (drop 90 bitmap) x = is_free bitmap (x + 720)" if "x < 304" for x
  proof -
    have "(x + 720) div 8 = 90 + x div 8" "(x + 720) mod 8 = x mod 8" by presburger+
    moreover have "90 + x div 8 \<le> length bitmap" using that assms by simp
    ultimately show ?thesis by (simp add: is_free_bit)
  qed
  have "count_free (drop 90 bitmap) 38 = length (filter (is_free (drop 90 bitmap)) [0..<304])"
    using count_free_bits[of 38 "drop 90 bitmap"] assms by simp
  also have "filter (is_free (drop 90 bitmap)) [0..<304]
      = filter (\<lambda>x. is_free bitmap (x + 720)) [0..<304]"
    by (rule filter_cong) (simp_all add: c)
  also have "length \<dots> = length (filter (is_free bitmap) [720..<1024])"
    unfolding u filter_map length_map by (simp add: comp_def)
  finally show ?thesis .
qed

lemma getbitmap_reads_upper:
  assumes "disk_size s = 1024" "in_image s 360" "in_image s 1024" "length u = 128" "length bm = 128"
  shows "\<exists>bm' msgs. getbitmap s u bm chk = Inr (bm', msgs)
      \<and> take 90 bm' = take 90 (drop 10 (sector_at s 360))
      \<and> drop 90 bm' = take 38 (drop 84 (sector_at s 1024))"
  using getbitmap_in_image[OF assms(2,4), of bm chk] assms(1,3,5)
    length_sector_at[OF assms(2)] length_sector_at[OF assms(3)]
  by simp


text \<open>
  C9. With \<^verbatim>\<open>disk_size = 1024\<close>, \<^verbatim>\<open>putbitmap\<close> leaves in sector 1024: in bytes 0..83 the
  bitmap bytes 6..89 (the bits of sectors 48..719), in bytes 84..121 the bitmap bytes
  90..127 (sectors 720..1023), in bytes 122 and 123 the number of free bits of the
  latter, which is the number of sectors 720..1023 the bitmap has free; and \<^verbatim>\<open>getbitmap\<close>
  on what it left returns the bitmap bytes 90..127 that were put. \<^verbatim>\<open>getbitmap\<close> on an
  image that holds both VTOC sectors returns a bitmap whose bytes 0..89 are the bytes
  10..99 of sector 360 and whose bytes 90..127 are the bytes 84..121 of sector 1024.
  And it does not depend on bytes 0..83 of sector 1024: replacing them by any 84
  bytes \<open>m\<close> changes neither the bitmap nor the diagnostics it returns.
\<close>

theorem vtoc2_mirror_written_never_read:
  assumes "length u = 128" "length bitmap = 128" "disk_size st = 1024"
  shows "(\<exists>st'. putbitmap st u bitmap = (Inr (), st')
            \<and> take 84 (sector_at st' 1024) = take 84 (drop 6 bitmap)
            \<and> take 38 (drop 84 (sector_at st' 1024)) = drop 90 bitmap
            \<and> le16 (sector_at st' 1024 ! 122) (sector_at st' 1024 ! 123)
                 = count_free (drop 90 bitmap) 38
            \<and> count_free (drop 90 bitmap) 38 = length (filter (is_free bitmap) [720..<1024])
            \<and> (\<forall>u' bm chk. length u' = 128 \<and> length bm = 128 \<longrightarrow>
                  (\<exists>bm' msgs. getbitmap st' u' bm chk = Inr (bm', msgs)
                     \<and> drop 90 bm' = drop 90 bitmap)))
       \<and> (\<forall>s u' bm chk.
             disk_size s = 1024 \<and> in_image s 360 \<and> in_image s 1024
             \<and> length u' = 128 \<and> length bm = 128
             \<longrightarrow> (\<exists>bm' msgs. getbitmap s u' bm chk = Inr (bm', msgs)
                    \<and> take 90 bm' = take 90 (drop 10 (sector_at s 360))
                    \<and> drop 90 bm' = take 38 (drop 84 (sector_at s 1024))))
       \<and> (\<forall>s m s2 u' bm chk.
             disk_size s = 1024 \<and> in_image s 360 \<and> in_image s 1024
             \<and> length u' = 128 \<and> length m = 84
             \<and> putsect s (m @ drop 84 (sector_at s 1024)) 1024 = Inr s2
             \<longrightarrow> getbitmap s2 u' bm chk = getbitmap s u' bm chk)"
proof -
  from putbitmap_effect[OF assms(1,2), of st] assms(3) obtain st' where
        r: "putbitmap st u bitmap = (Inr (), st')"
    and t: "take 122 (sector_at st' 1024) = drop 6 bitmap"
    and c: "le16 (sector_at st' 1024 ! 122) (sector_at st' 1024 ! 123)
            = count_free (drop 90 bitmap) 38"
    and i: "in_image st' 360" "in_image st' 1024" and d: "disk_size st' = 1024"
    by auto
  have "take 84 (take 122 (sector_at st' 1024)) = take 84 (sector_at st' 1024)" by simp
  with t have m: "take 84 (sector_at st' 1024) = take 84 (drop 6 bitmap)" by simp
  have "take 38 (drop 84 (take 122 (sector_at st' 1024))) = take 38 (drop 84 (sector_at st' 1024))"
    by (rule take_drop_take) simp
  with t assms(2) have b: "take 38 (drop 84 (sector_at st' 1024)) = drop 90 bitmap" by simp
  note n = count_free_upper[OF assms(2)]
  have g: "\<forall>u' bm chk. length u' = 128 \<and> length bm = 128 \<longrightarrow>
                  (\<exists>bm' msgs. getbitmap st' u' bm chk = Inr (bm', msgs)
                     \<and> drop 90 bm' = drop 90 bitmap)"
    using getbitmap_reads_upper[OF d i] b by metis
  have rd: "\<forall>s u' bm chk.
             disk_size s = 1024 \<and> in_image s 360 \<and> in_image s 1024
             \<and> length u' = 128 \<and> length bm = 128
             \<longrightarrow> (\<exists>bm' msgs. getbitmap s u' bm chk = Inr (bm', msgs)
                    \<and> take 90 bm' = take 90 (drop 10 (sector_at s 360))
                    \<and> drop 90 bm' = take 38 (drop 84 (sector_at s 1024)))"
    using getbitmap_reads_upper by blast
  have mi: "\<forall>s m s2 u' bm chk.
             disk_size s = 1024 \<and> in_image s 360 \<and> in_image s 1024
             \<and> length u' = 128 \<and> length m = 84
             \<and> putsect s (m @ drop 84 (sector_at s 1024)) 1024 = Inr s2
             \<longrightarrow> getbitmap s2 u' bm chk = getbitmap s u' bm chk"
    using getbitmap_mirror_independent by blast
  from r m b c n g have "\<exists>st'. putbitmap st u bitmap = (Inr (), st')
            \<and> take 84 (sector_at st' 1024) = take 84 (drop 6 bitmap)
            \<and> take 38 (drop 84 (sector_at st' 1024)) = drop 90 bitmap
            \<and> le16 (sector_at st' 1024 ! 122) (sector_at st' 1024 ! 123)
                 = count_free (drop 90 bitmap) 38
            \<and> count_free (drop 90 bitmap) 38 = length (filter (is_free bitmap) [720..<1024])
            \<and> (\<forall>u' bm chk. length u' = 128 \<and> length bm = 128 \<longrightarrow>
                  (\<exists>bm' msgs. getbitmap st' u' bm chk = Inr (bm', msgs)
                     \<and> drop 90 bm' = drop 90 bitmap))"
    by blast
  with rd mi show ?thesis by blast
qed

theorem vtoc2_mirror_written_never_read_witness:
  "length (replicate 128 (0::u8)) = 128 \<and> length (0x0F # replicate 127 (0xFF::u8)) = 128
   \<and> (\<exists>st'. putbitmap \<lparr>disk = replicate 133136 0, disk_size = 1024, cvt_ending = False\<rparr>
               (replicate 128 0) (0x0F # replicate 127 0xFF) = (Inr (), st')
            \<and> take 84 (sector_at st' 1024) = replicate 84 0xFF
            \<and> take 38 (drop 84 (sector_at st' 1024)) = replicate 38 0xFF
            \<and> le16 (sector_at st' 1024 ! 122) (sector_at st' 1024 ! 123) = 304
            \<and> (\<exists>bm' msgs. getbitmap st' (replicate 128 0) (replicate 128 0) True = Inr (bm', msgs)
                  \<and> drop 90 bm' = replicate 38 0xFF))
   \<and> in_image \<lparr>disk = replicate 133136 0, disk_size = 1024, cvt_ending = False\<rparr> 360
   \<and> in_image \<lparr>disk = replicate 133136 0, disk_size = 1024, cvt_ending = False\<rparr> 1024
   \<and> (\<exists>bm' msgs. getbitmap \<lparr>disk = replicate 133136 0, disk_size = 1024, cvt_ending = False\<rparr>
                     (replicate 128 0) (replicate 128 0xFF) False = Inr (bm', msgs)
          \<and> bm' = replicate 128 0)
   \<and> (\<exists>s2. putsect \<lparr>disk = replicate 133136 0, disk_size = 1024, cvt_ending = False\<rparr>
               (replicate 84 0xFF @ drop 84 (sector_at
                   \<lparr>disk = replicate 133136 0, disk_size = 1024, cvt_ending = False\<rparr> 1024)) 1024
              = Inr s2
            \<and> getbitmap s2 (replicate 128 0) (replicate 128 0) True
              = getbitmap \<lparr>disk = replicate 133136 0, disk_size = 1024, cvt_ending = False\<rparr>
                  (replicate 128 0) (replicate 128 0) True)"
proof -
  define s0 where "s0 = \<lparr>disk = replicate 133136 (0::u8), disk_size = 1024, cvt_ending = False\<rparr>"
  define bmp where "bmp = 0x0F # replicate 127 (0xFF::u8)"
  have l: "length (replicate 128 (0::u8)) = 128" "length bmp = 128"
    by (simp_all add: bmp_def)
  have d: "disk_size s0 = 1024" by (simp add: s0_def)
  have i: "in_image s0 360" "in_image s0 1024" by (simp_all add: s0_def in_image_def)
  obtain s2 where p: "putsect s0 (replicate 84 0xFF @ drop 84 (sector_at s0 1024)) 1024 = Inr s2"
    using putsect_Inr[of 1024] by auto
  note T = vtoc2_mirror_written_never_read[OF l(1) l(2) d]
  from T obtain st' where S:
    "putbitmap s0 (replicate 128 0) bmp = (Inr (), st')"
    "take 84 (sector_at st' 1024) = take 84 (drop 6 bmp)"
    "take 38 (drop 84 (sector_at st' 1024)) = drop 90 bmp"
    "le16 (sector_at st' 1024 ! 122) (sector_at st' 1024 ! 123) = count_free (drop 90 bmp) 38"
    "count_free (drop 90 bmp) 38 = length (filter (is_free bmp) [720..<1024])"
    "\<forall>u' bm chk. length u' = 128 \<and> length bm = 128 \<longrightarrow>
        (\<exists>bm' msgs. getbitmap st' u' bm chk = Inr (bm', msgs) \<and> drop 90 bm' = drop 90 bmp)"
    by blast
  have fr: "is_free bmp s" if "720 \<le> s" "s < 1024" for s
  proof -
    have "0 < s div 8" "s div 8 - 1 < 127" using that by simp_all
    then have "bmp ! (s div 8) = 0xFF" by (simp add: bmp_def nth_Cons')
    moreover have "(0xFF :: u8) = - 1" by simp
    moreover have "7 - s mod 8 < 8" by simp
    ultimately show ?thesis by (simp add: is_free_bit del: One_nat_def)
  qed
  have "filter (is_free bmp) [720..<1024] = [720..<1024]"
    by (simp add: fr del: upt_rec_numeral)
  then have n: "length (filter (is_free bmp) [720..<1024]) = 304"
    by (simp del: upt_rec_numeral)
  have e: "take 84 (drop 6 bmp) = replicate 84 0xFF" "drop 90 bmp = replicate 38 0xFF"
    by (simp_all add: bmp_def)
  from S(6)[rule_format, of "replicate 128 0" "replicate 128 0" True]
  have g: "\<exists>bm' msgs. getbitmap st' (replicate 128 0) (replicate 128 0) True = Inr (bm', msgs)
                  \<and> drop 90 bm' = replicate 38 0xFF"
    unfolding e by simp
  from S(1-5) n e g
  have a: "\<exists>st'. putbitmap s0 (replicate 128 0) bmp = (Inr (), st')
            \<and> take 84 (sector_at st' 1024) = replicate 84 0xFF
            \<and> take 38 (drop 84 (sector_at st' 1024)) = replicate 38 0xFF
            \<and> le16 (sector_at st' 1024 ! 122) (sector_at st' 1024 ! 123) = 304
            \<and> (\<exists>bm' msgs. getbitmap st' (replicate 128 0) (replicate 128 0) True = Inr (bm', msgs)
                  \<and> drop 90 bm' = replicate 38 0xFF)"
    by auto
  from T have rd: "\<forall>s u' bm chk.
             disk_size s = 1024 \<and> in_image s 360 \<and> in_image s 1024
             \<and> length u' = 128 \<and> length bm = 128
             \<longrightarrow> (\<exists>bm' msgs. getbitmap s u' bm chk = Inr (bm', msgs)
                    \<and> take 90 bm' = take 90 (drop 10 (sector_at s 360))
                    \<and> drop 90 bm' = take 38 (drop 84 (sector_at s 1024)))"
    by blast
  have z: "sector_at s0 360 = replicate 128 0" "sector_at s0 1024 = replicate 128 0"
    by (simp_all add: s0_def sector_at_def)
  from rd[rule_format, of s0 "replicate 128 0" "replicate 128 0xFF" False] d i
  obtain bm' msgs where G:
    "getbitmap s0 (replicate 128 0) (replicate 128 0xFF) False = Inr (bm', msgs)"
    "take 90 bm' = take 90 (drop 10 (sector_at s0 360))"
    "drop 90 bm' = take 38 (drop 84 (sector_at s0 1024))"
    by auto
  have "bm' = take 90 bm' @ drop 90 bm'" by simp
  also have "\<dots> = replicate 90 0 @ replicate 38 0" unfolding G(2,3) z by simp
  also have "\<dots> = replicate 128 0" unfolding replicate_add[symmetric] by simp
  finally have "bm' = replicate 128 0" .
  with G(1) have c: "\<exists>bm' msgs. getbitmap s0 (replicate 128 0) (replicate 128 0xFF) False = Inr (bm', msgs)
          \<and> bm' = replicate 128 0"
    by blast
  from T have "\<forall>s m s2 u' bm chk.
             disk_size s = 1024 \<and> in_image s 360 \<and> in_image s 1024
             \<and> length u' = 128 \<and> length m = 84
             \<and> putsect s (m @ drop 84 (sector_at s 1024)) 1024 = Inr s2
             \<longrightarrow> getbitmap s2 u' bm chk = getbitmap s u' bm chk"
    by blast
  from this[rule_format, of s0 "replicate 128 0" "replicate 84 0xFF" s2 "replicate 128 0" True]
    d i p
  have "getbitmap s2 (replicate 128 0) (replicate 128 0) True
      = getbitmap s0 (replicate 128 0) (replicate 128 0) True"
    by simp
  with p have b: "\<exists>s2. putsect s0 (replicate 84 0xFF @ drop 84 (sector_at s0 1024)) 1024 = Inr s2
            \<and> getbitmap s2 (replicate 128 0) (replicate 128 0) True
              = getbitmap s0 (replicate 128 0) (replicate 128 0) True"
    by blast
  from l a i c b show ?thesis unfolding s0_def bmp_def by blast
qed

section \<open>The directory\<close>

lemma putsect_poke: "0 < sect \<Longrightarrow> putsect st buf sect = Inr (poke st sect buf)"
  by (simp add: putsect_def poke_def)

lemma poke_same:
  "0 < sect \<Longrightarrow> length buf = 128 \<Longrightarrow> sector_at (poke st sect buf) sect = buf"
  using putsect_same(1)[of st buf sect "poke st sect buf"] by (simp add: putsect_poke)

lemma poke_in_image_same:
  "0 < sect \<Longrightarrow> length buf = 128 \<Longrightarrow> in_image (poke st sect buf) sect"
  using putsect_same(2)[of st buf sect "poke st sect buf"] by (simp add: putsect_poke)

lemma poke_in_image:
  "0 < sect \<Longrightarrow> length buf = 128 \<Longrightarrow> in_image st s \<Longrightarrow> in_image (poke st sect buf) s"
  using putsect_in_image[of st buf sect "poke st sect buf" s] by (simp add: putsect_poke)

lemma poke_other:
  "0 < sect \<Longrightarrow> length buf = 128 \<Longrightarrow> in_image st s \<Longrightarrow> s \<noteq> sect \<Longrightarrow>
   sector_at (poke st sect buf) s = sector_at st s"
  using putsect_other[of st buf sect "poke st sect buf" s] by (simp add: putsect_poke)

lemma poke_fields [simp]:
  "disk_size (poke st sect buf) = disk_size st" "cvt_ending (poke st sect buf) = cvt_ending st"
  by (simp_all add: poke_def)

lemma poke_length:
  "length buf = 128 \<Longrightarrow> in_image st sect \<Longrightarrow> length (disk (poke st sect buf)) = length (disk st)"
  using putsect_length[of st buf sect "poke st sect buf"] by (simp add: putsect_poke in_image_def)

lemma in_image_blank_sd: "in_image blank_sd s = (0 < s \<and> s \<le> 720)"
  by (auto simp add: in_image_def blank_sd_def)

lemma in_image_blank_ed: "in_image blank_ed s = (0 < s \<and> s \<le> 1040)"
  by (auto simp add: in_image_def blank_ed_def)

lemma sector_at_blank_sd: "in_image blank_sd s \<Longrightarrow> sector_at blank_sd s = replicate 128 0"
  by (cases s) (auto simp add: in_image_def sector_at_def blank_sd_def min_def)

lemma sector_at_blank_ed: "in_image blank_ed s \<Longrightarrow> sector_at blank_ed s = replicate 128 0"
  by (cases s) (auto simp add: in_image_def sector_at_def blank_ed_def min_def)

lemma blank_fields [simp]:
  "disk_size blank_sd = 720" "disk_size blank_ed = 1024"
  "cvt_ending blank_sd = False" "cvt_ending blank_ed = False"
  by (simp_all add: blank_sd_def blank_ed_def)

lemma find_append_option:
  "List.find P (xs @ ys) = (case List.find P xs of None \<Rightarrow> List.find P ys | Some x \<Rightarrow> Some x)"
  by (induction xs) simp_all

lemma find_map_option: "List.find P (map f xs) = map_option f (List.find (\<lambda>x. P (f x)) xs)"
  by (induction xs) simp_all

lemma empty_in_sector_find:
  "empty_in_sector buf ys = List.find (\<lambda>y. flag (dirent_at buf y) AND 0x40 = 0) ys"
  by (induction ys) simp_all

lemma match_in_sector_find:
  "match_in_sector buf filename ys =
     List.find (\<lambda>y. flag (dirent_at buf y) AND 0x40 \<noteq> 0
                    \<and> strcmp_eq (getname (dirent_at buf y)) filename) ys"
  by (induction ys) simp_all

text \<open>The slots of a list of directory sectors, in the order the loops visit them.\<close>

lemma dir_slots:
  "concat (map (\<lambda>x. map (\<lambda>y. (x, y)) entry_offsets) dir_sectors)
     = map (\<lambda>k. (361 + k div 8, 16 * (k mod 8))) [0..<64]"
  by code_simp

lemma find_empty_loop_find:
  assumes "list_all (in_image st) xs" "length buf = 128"
  shows "find_empty_loop st buf xs =
    (case List.find (\<lambda>(x, y). flag (dirent_at (sector_at st x) y) AND 0x40 = 0)
            (concat (map (\<lambda>x. map (\<lambda>y. (x, y)) entry_offsets) xs)) of
       None \<Rightarrow> Inl DirectoryFull
     | Some (x, y) \<Rightarrow> Inr ((x - 361) * 128 div 16 + y div 16))"
  using assms
proof (induction xs arbitrary: buf)
  case Nil
  then show ?case by simp
next
  case (Cons x xs)
  then have i: "in_image st x" and r: "list_all (in_image st) xs" by simp_all
  have g: "getsect st buf x = Inr (sector_at st x)"
    using i Cons.prems(2) by (rule getsect_in_image)
  have l: "length (sector_at st x) = 128" using i by (rule length_sector_at)
  show ?case
    using g Cons.IH[OF r l]
    by (simp add: find_append_option find_map_option empty_in_sector_find
        split: option.splits)
qed

lemma find_empty_entry_find:
  assumes "dir_in_image st" "length u = 128"
  shows "find_empty_entry st u =
    (case List.find (\<lambda>k. \<not> slot_in_use st k) [0..<64] of
       None \<Rightarrow> Inl DirectoryFull | Some k \<Rightarrow> Inr k)"
proof -
  have "(361 + k div 8 - 361) * 128 div 16 + 16 * (k mod 8) div 16 = k" for k :: nat
    by simp
  then show ?thesis
    unfolding find_empty_entry_def
    using find_empty_loop_find[OF assms[unfolded dir_in_image_def]]
    by (simp add: dir_slots find_map_option slot_in_use_def slot_entry_def
        split: option.splits)
qed

lemma find_file_loop_find:
  assumes "list_all (in_image st) xs" "length buf = 128"
  shows "find_file_loop st buf filename del xs =
    (case List.find (\<lambda>(x, y). flag (dirent_at (sector_at st x) y) AND 0x40 \<noteq> 0
                        \<and> strcmp_eq (getname (dirent_at (sector_at st x) y)) filename)
            (concat (map (\<lambda>x. map (\<lambda>y. (x, y)) entry_offsets) xs)) of
       None \<Rightarrow> (Inl NotFound, st)
     | Some (x, y) \<Rightarrow>
         (Inr (entry_start (dirent_at (sector_at st x) y)),
          if del then poke st x ((sector_at st x)[y := 0x80]) else st))"
  using assms
proof (induction xs arbitrary: buf)
  case Nil
  then show ?case by simp
next
  case (Cons x xs)
  then have i: "in_image st x" and r: "list_all (in_image st) xs" by simp_all
  have g: "getsect st buf x = Inr (sector_at st x)"
    using i Cons.prems(2) by (rule getsect_in_image)
  have l: "length (sector_at st x) = 128" using i by (rule length_sector_at)
  have x: "0 < x" using i by (simp add: in_image_def)
  show ?case
    using g Cons.IH[OF r l] putsect_poke[OF x, of st]
    by (auto simp add: find_append_option find_map_option match_in_sector_find entry_start_def Let_def
        split: option.splits prod.splits)
qed

lemma find_file_find:
  assumes "dir_in_image st" "length u = 128"
  shows "find_file st u filename del =
    (case List.find (slot_matches st filename) [0..<64] of
       None \<Rightarrow> (Inl NotFound, st)
     | Some k \<Rightarrow>
         (Inr (entry_start (slot_entry st k)),
          if del then poke st (361 + k div 8) ((sector_at st (361 + k div 8))[16 * (k mod 8) := 0x80])
          else st))"
proof -
  have sm: "slot_matches st filename =
      (\<lambda>k. flag (dirent_at (sector_at st (361 + k div 8)) (16 * (k mod 8))) AND 0x40 \<noteq> 0
         \<and> strcmp_eq (getname (dirent_at (sector_at st (361 + k div 8)) (16 * (k mod 8)))) filename)"
    by (simp add: fun_eq_iff slot_matches_def slot_in_use_def slot_entry_def)
  show ?thesis
    unfolding find_file_def sm slot_entry_def
    using find_file_loop_find[OF assms[unfolded dir_in_image_def], of filename del]
    by (simp add: dir_slots find_map_option split: option.splits)
qed

lemma dirent_at_update_same:
  "dirent_at (buf[y := v]) y = (if y < length buf then (dirent_at buf y)\<lparr>flag := v\<rparr> else dirent_at buf y)"
  by (auto simp add: dirent_at_def drop_update_cancel list_update_beyond)

lemma dirent_at_update_other:
  assumes "y' + 16 \<le> y \<or> y < y'"
  shows "dirent_at (buf[y := v]) y' = dirent_at buf y'"
proof (cases "y < y'")
  case True
  then show ?thesis by (simp add: dirent_at_def drop_update_cancel)
next
  case False
  with assms have "y' + 16 \<le> y" by simp
  then show ?thesis
    by (simp add: dirent_at_def drop_update_swap take_update_cancel)
qed

lemma dir_sector_pos: "k < 64 \<Longrightarrow> 361 + k div 8 \<in> set dir_sectors"
  by (auto simp add: dir_sectors_def)

lemma dir_in_image_slot: "dir_in_image st \<Longrightarrow> k < 64 \<Longrightarrow> in_image st (361 + k div 8)"
  using dir_sector_pos[of k] by (simp add: dir_in_image_def list_all_iff)

lemma dir_in_image_poke:
  "0 < sect \<Longrightarrow> length buf = 128 \<Longrightarrow> dir_in_image st \<Longrightarrow> dir_in_image (poke st sect buf)"
  by (simp add: dir_in_image_def list_all_iff poke_in_image)

lemma slot_entry_poke_flag:
  assumes "dir_in_image st" "k < 64" "j < 64"
  shows "slot_entry (poke st (361 + k div 8) ((sector_at st (361 + k div 8))[16 * (k mod 8) := v])) j
         = (if j = k then (slot_entry st k)\<lparr>flag := v\<rparr> else slot_entry st j)"
proof -
  define x where "x = 361 + k div 8"
  define b where "b = (sector_at st x)[16 * (k mod 8) := v]"
  have ix: "in_image st x" unfolding x_def using assms(1,2) by (rule dir_in_image_slot)
  have lx: "length (sector_at st x) = 128" using ix by (rule length_sector_at)
  have lb: "length b = 128" using lx by (simp add: b_def)
  have px: "0 < x" by (simp add: x_def)
  have same: "sector_at (poke st x b) x = b" using px lb by (rule poke_same)
  show ?thesis
  proof (cases "j div 8 = k div 8")
    case True
    have km: "16 * (k mod 8) < 128" by simp
    show ?thesis
    proof (cases "j = k")
      case True
      then show ?thesis
        using same lx km
        by (simp add: slot_entry_def x_def[symmetric] b_def[symmetric])
           (simp add: b_def dirent_at_update_same)
    next
      case False
      with \<open>j div 8 = k div 8\<close> have "j mod 8 \<noteq> k mod 8" by (metis div_mult_mod_eq)
      then have "16 * (j mod 8) + 16 \<le> 16 * (k mod 8) \<or> 16 * (k mod 8) < 16 * (j mod 8)"
        by arith
      then have "dirent_at b (16 * (j mod 8)) = dirent_at (sector_at st x) (16 * (j mod 8))"
        unfolding b_def by (rule dirent_at_update_other)
      then show ?thesis
        using same False \<open>j div 8 = k div 8\<close>
        by (simp add: slot_entry_def x_def[symmetric] b_def[symmetric])
    qed
  next
    case False
    then have ne: "361 + j div 8 \<noteq> x" "j \<noteq> k" by (auto simp add: x_def)
    have ij: "in_image st (361 + j div 8)" using assms(1,3) by (rule dir_in_image_slot)
    have "sector_at (poke st x b) (361 + j div 8) = sector_at st (361 + j div 8)"
      using px lb ij ne(1) by (rule poke_other)
    then show ?thesis using ne(2)
      by (simp add: slot_entry_def x_def[symmetric] b_def[symmetric])
  qed
qed

lemma lower_not_upper: "\<not> (0x41 \<le> lower c \<and> lower c \<le> 0x5A)"
  unfolding lower_def by (auto simp add: word_le_nat_alt unat_sub unat_word_ariths word_less_nat_alt)

lemma set_zap: "set (zap s) \<subseteq> set s"
  unfolding zap_def by (auto dest: set_dropWhileD)

lemma getname_no_upper:
  assumes "c \<in> set (getname d)"
  shows "\<not> (0x41 \<le> c \<and> c \<le> 0x5A)"
proof -
  define s1 where "s1 = zap (map lower (take 8 (name d))) @ [0x2E]"
  define s2 where "s2 = zap (s1 @ map lower (take 3 (suffix d)))"
  have "set (getname d) \<subseteq> set s2"
    unfolding getname_def Let_def s1_def[symmetric] s2_def[symmetric]
    by (auto dest: in_set_butlastD)
  also have "\<dots> \<subseteq> set s1 \<union> lower ` set (take 3 (suffix d))"
    unfolding s2_def using set_zap[of "s1 @ map lower (take 3 (suffix d))"] by auto
  also have "\<dots> \<subseteq> lower ` set (take 8 (name d)) \<union> {0x2E} \<union> lower ` set (take 3 (suffix d))"
    unfolding s1_def using set_zap[of "map lower (take 8 (name d))"] by auto
  finally have "c \<in> lower ` set (take 8 (name d)) \<union> {0x2E} \<union> lower ` set (take 3 (suffix d))"
    using assms by auto
  then show ?thesis using lower_not_upper by auto
qed

lemma upper_request_no_match:
  assumes "\<exists>c\<in>set (cstr filename). 0x41 \<le> c \<and> c \<le> 0x5A"
  shows "\<not> slot_matches st filename k"
proof
  assume "slot_matches st filename k"
  then have "cstr (getname (slot_entry st k)) = cstr filename"
    by (simp add: slot_matches_def strcmp_eq_def)
  with assms obtain c where c: "c \<in> set (cstr (getname (slot_entry st k)))" "0x41 \<le> c \<and> c \<le> 0x5A"
    by auto
  from c(1) have "c \<in> set (getname (slot_entry st k))"
    unfolding cstr_def by (rule set_takeWhileD[THEN conjunct1])
  with c(2) getname_no_upper show False by blast
qed

lemma find_None_all: "(\<And>x. \<not> P x) \<Longrightarrow> List.find P xs = None"
  by (simp add: find_None_iff)

text \<open>
  C6 (the claim as amended). On an image that holds the directory sectors,
  \<^verbatim>\<open>find_file\<close> without deletion returns the starting sector of the first slot, in
  the order 0..63 (sector by sector, and within a sector entry by entry), that is in
  use and whose name matches, and \<open>NotFound\<close> when there is none; the image is left as
  it is. A slot matches when the stored name, lower-cased and dotted by \<^verbatim>\<open>getname\<close>, is
  the requested name character for character (\<^verbatim>\<open>strcmp\<close>): the request is not
  case-folded, so a request with a capital letter in it finds nothing.
\<close>

theorem find_file_first_exact_match:
  assumes "dir_in_image st" "length u = 128"
  shows "find_file st u filename False =
           (case List.find (slot_matches st filename) [0..<64] of
              None \<Rightarrow> (Inl NotFound, st)
            | Some k \<Rightarrow> (Inr (entry_start (slot_entry st k)), st))
       \<and> ((\<exists>c\<in>set (cstr filename). 0x41 \<le> c \<and> c \<le> 0x5A)
            \<longrightarrow> find_file st u filename False = (Inl NotFound, st))"
proof -
  have a: "find_file st u filename False =
           (case List.find (slot_matches st filename) [0..<64] of
              None \<Rightarrow> (Inl NotFound, st)
            | Some k \<Rightarrow> (Inr (entry_start (slot_entry st k)), st))"
    using find_file_find[OF assms, of filename False] by (simp split: option.splits)
  moreover have "find_file st u filename False = (Inl NotFound, st)"
    if "\<exists>c\<in>set (cstr filename). 0x41 \<le> c \<and> c \<le> 0x5A"
    using a find_None_all[of "slot_matches st filename" "[0..<64]"] upper_request_no_match[OF that]
    by simp
  ultimately show ?thesis by blast
qed

text \<open>
  C5 (the claim as amended). When slot \<open>k\<close> is the first that matches, \<^verbatim>\<open>find_file\<close>
  with deletion sets the flag byte of that entry to exactly \<^verbatim>\<open>0x80\<close>: the deleted flag
  is set and the in-use flag is cleared; the rest of the entry and the other slots
  are unchanged. The slot therefore counts as empty: \<^verbatim>\<open>find_empty_entry\<close> afterwards
  returns it, unless a lower slot was already empty, which it then returns.
\<close>

lemma find_upt_split:
  assumes "k < n"
  shows "List.find P [0..<n] =
     (case List.find P [0..<k] of
        Some j \<Rightarrow> Some j
      | None \<Rightarrow> if P k then Some k else List.find P [Suc k..<n])"
proof -
  have "[0..<n] = [0..<k] @ k # [Suc k..<n]"
  proof -
    have "[0..<n] = [0..<k] @ [k..<n]"
      using assms upt_add_eq_append[of 0 k "n - k"] by simp
    then show ?thesis using assms by (simp add: upt_conv_Cons)
  qed
  then show ?thesis by (simp add: find_append_option split: option.splits)
qed

theorem delete_clears_in_use:
  assumes "dir_in_image st" "length u = 128"
    and "List.find (slot_matches st filename) [0..<64] = Some k"
  shows "\<exists>st'. find_file st u filename True = (Inr (entry_start (slot_entry st k)), st')
       \<and> slot_entry st' k = (slot_entry st k)\<lparr>flag := FLAG_DELETED\<rparr>
       \<and> \<not> slot_in_use st' k
       \<and> (\<forall>j<64. j \<noteq> k \<longrightarrow> slot_entry st' j = slot_entry st j)
       \<and> find_empty_entry st' u
           = Inr (case List.find (\<lambda>j. \<not> slot_in_use st j) [0..<k] of None \<Rightarrow> k | Some j \<Rightarrow> j)"
proof -
  define st' where
    "st' = poke st (361 + k div 8) ((sector_at st (361 + k div 8))[16 * (k mod 8) := 0x80])"
  from assms(3) have k: "k < 64" by (auto simp add: find_Some_iff)
  have r: "find_file st u filename True = (Inr (entry_start (slot_entry st k)), st')"
    using find_file_find[OF assms(1,2), of filename True] assms(3) by (simp add: st'_def)
  have e: "slot_entry st' j = (if j = k then (slot_entry st k)\<lparr>flag := 0x80\<rparr> else slot_entry st j)"
    if "j < 64" for j
    unfolding st'_def using assms(1) k that by (rule slot_entry_poke_flag)
  have nk: "\<not> slot_in_use st' k" using e[OF k] by (simp add: slot_in_use_def)
  have lt: "slot_in_use st' j = slot_in_use st j" if "j < k" for j
    using e[of j] that k by (simp add: slot_in_use_def)
  have di: "dir_in_image st'"
    unfolding st'_def
    using assms(1) length_sector_at[OF dir_in_image_slot[OF assms(1) k]]
    by (intro dir_in_image_poke) simp_all
  have "List.find (\<lambda>j. \<not> slot_in_use st' j) [0..<k] = List.find (\<lambda>j. \<not> slot_in_use st j) [0..<k]"
    by (rule find_cong) (simp_all add: lt)
  then have "List.find (\<lambda>j. \<not> slot_in_use st' j) [0..<64]
      = Some (case List.find (\<lambda>j. \<not> slot_in_use st j) [0..<k] of None \<Rightarrow> k | Some j \<Rightarrow> j)"
    using find_upt_split[OF k, of "\<lambda>j. \<not> slot_in_use st' j"] nk
    by (simp split: option.splits)
  then have "find_empty_entry st' u
           = Inr (case List.find (\<lambda>j. \<not> slot_in_use st j) [0..<k] of None \<Rightarrow> k | Some j \<Rightarrow> j)"
    using find_empty_entry_find[OF di assms(2)] by simp
  moreover have "slot_entry st' k = (slot_entry st k)\<lparr>flag := 0x80\<rparr>" using e[OF k] by simp
  moreover have "\<forall>j<64. j \<noteq> k \<longrightarrow> slot_entry st' j = slot_entry st j" using e by simp
  ultimately show ?thesis using r nk by blast
qed

lemma length_foo_entry: "length foo_entry = 16"
  by (simp add: foo_entry_def bytes_def)

lemma dir_example_image: "in_image dir_example s = (0 < s \<and> s \<le> 720)"
proof -
  have "length (disk dir_example) = length (disk blank_sd)"
    unfolding dir_example_def
    by (rule poke_length) (simp_all add: length_foo_entry in_image_blank_sd)
  then show ?thesis using in_image_blank_sd[of s] by (simp add: in_image_def)
qed

lemma dir_example_dir: "dir_in_image dir_example"
  by (simp add: dir_in_image_def dir_sectors_def dir_example_image upt_rec_numeral)

lemma dir_example_361: "sector_at dir_example 361 = foo_entry @ replicate 112 0"
  unfolding dir_example_def by (rule poke_same) (simp_all add: length_foo_entry)

lemma dir_example_other:
  "0 < s \<Longrightarrow> s \<le> 720 \<Longrightarrow> s \<noteq> 361 \<Longrightarrow> sector_at dir_example s = replicate 128 0"
  unfolding dir_example_def
  by (subst poke_other) (simp_all add: length_foo_entry in_image_blank_sd sector_at_blank_sd)

lemma dir_example_slot0:
  "slot_entry dir_example 0 =
     \<lparr>flag = 0x42, count_lo = 1, count_hi = 0, start_lo = 4, start_hi = 0,
      name = bytes ''FOO     '', suffix = bytes ''TXT''\<rparr>"
  by (simp add: slot_entry_def dir_example_361 dirent_at_def foo_entry_def bytes_def)

lemma getname_foo:
  "getname \<lparr>flag = 0x42, count_lo = 1, count_hi = 0, start_lo = 4, start_hi = 0,
      name = bytes ''FOO     '', suffix = bytes ''TXT''\<rparr> = bytes ''foo.txt''"
  by (simp add: getname_def bytes_def zap_def lower_def)

lemma dir_example_match0: "slot_matches dir_example (bytes ''foo.txt'') 0"
  by (simp add: slot_matches_def slot_in_use_def dir_example_slot0 getname_foo strcmp_eq_def)

lemma dir_example_find: "List.find (slot_matches dir_example (bytes ''foo.txt'')) [0..<64] = Some 0"
  by (subst find_upt_rec) (simp add: dir_example_match0)

lemma dir_example_slot1: "\<not> slot_in_use dir_example 1"
  by (simp add: slot_in_use_def slot_entry_def dir_example_361 dirent_at_def foo_entry_def bytes_def
      nth_append)

lemma dir_example_empty: "find_empty_entry dir_example (replicate 128 0) = Inr 1"
proof -
  have "slot_in_use dir_example 0" by (simp add: slot_in_use_def dir_example_slot0)
  then have "List.find (\<lambda>k. \<not> slot_in_use dir_example k) [0..<64] = Some 1"
    using dir_example_slot1
    by (subst find_upt_rec, simp, subst find_upt_rec, simp)
  then show ?thesis using find_empty_entry_find[OF dir_example_dir, of "replicate 128 0"] by simp
qed

text \<open>
  C6 as stated fails: the stored name is \<^verbatim>\<open>FOO     TXT\<close>; the request \<^verbatim>\<open>foo.txt\<close> finds
  it, the requests \<^verbatim>\<open>FOO.TXT\<close> and \<^verbatim>\<open>Foo.txt\<close>, which differ from it in letter case
  only, do not.
\<close>

theorem find_file_case_sensitive:
  "name (slot_entry dir_example 0) = bytes ''FOO     ''
   \<and> suffix (slot_entry dir_example 0) = bytes ''TXT''
   \<and> slot_in_use dir_example 0
   \<and> find_file dir_example (replicate 128 0) (bytes ''foo.txt'') False = (Inr 4, dir_example)
   \<and> find_file dir_example (replicate 128 0) (bytes ''FOO.TXT'') False = (Inl NotFound, dir_example)
   \<and> find_file dir_example (replicate 128 0) (bytes ''Foo.txt'') False = (Inl NotFound, dir_example)"
proof -
  have a: "find_file dir_example (replicate 128 0) (bytes ''foo.txt'') False = (Inr 4, dir_example)"
    using find_file_find[OF dir_example_dir, of "replicate 128 0" "bytes ''foo.txt''" False]
    by (simp add: dir_example_find dir_example_slot0 entry_start_def)
  have n1: "List.find (slot_matches dir_example (bytes ''FOO.TXT'')) [0..<64] = None"
    by (rule find_None_all, rule upper_request_no_match) (simp add: bytes_def cstr_def)
  have n2: "List.find (slot_matches dir_example (bytes ''Foo.txt'')) [0..<64] = None"
    by (rule find_None_all, rule upper_request_no_match) (simp add: bytes_def cstr_def)
  have b: "find_file dir_example (replicate 128 0) (bytes ''FOO.TXT'') False = (Inl NotFound, dir_example)"
    using find_file_find[OF dir_example_dir, of "replicate 128 0" "bytes ''FOO.TXT''" False]
    by (simp add: n1)
  have c: "find_file dir_example (replicate 128 0) (bytes ''Foo.txt'') False = (Inl NotFound, dir_example)"
    using find_file_find[OF dir_example_dir, of "replicate 128 0" "bytes ''Foo.txt''" False]
    by (simp add: n2)
  from a b c show ?thesis by (simp add: dir_example_slot0 slot_in_use_def)
qed

theorem find_file_first_exact_match_witness:
  "dir_in_image dir_example \<and> length (replicate 128 (0::u8)) = 128
   \<and> List.find (slot_matches dir_example (bytes ''foo.txt'')) [0..<64] = Some 0
   \<and> find_file dir_example (replicate 128 0) (bytes ''foo.txt'') False = (Inr 4, dir_example)
   \<and> (\<exists>c\<in>set (cstr (bytes ''FOO.TXT'')). 0x41 \<le> c \<and> c \<le> 0x5A)
   \<and> find_file dir_example (replicate 128 0) (bytes ''FOO.TXT'') False = (Inl NotFound, dir_example)"
proof -
  have l: "length (replicate 128 (0::u8)) = 128" by simp
  have up: "\<exists>c\<in>set (cstr (bytes ''FOO.TXT'')). 0x41 \<le> c \<and> c \<le> 0x5A"
    by (simp add: bytes_def cstr_def)
  note A = find_file_first_exact_match[OF dir_example_dir l, of "bytes ''foo.txt''"]
  note B = find_file_first_exact_match[OF dir_example_dir l, of "bytes ''FOO.TXT''"]
  have a: "find_file dir_example (replicate 128 0) (bytes ''foo.txt'') False = (Inr 4, dir_example)"
    using A[THEN conjunct1] by (simp add: dir_example_find dir_example_slot0 entry_start_def)
  have b: "find_file dir_example (replicate 128 0) (bytes ''FOO.TXT'') False = (Inl NotFound, dir_example)"
    using B[THEN conjunct2] up by blast
  from a b up l dir_example_dir dir_example_find show ?thesis by blast
qed

text \<open>
  C5 as stated fails: after the deletion of the file in slot 0 the flag byte is
  \<^verbatim>\<open>0x80\<close>, the in-use flag is clear, and \<^verbatim>\<open>find_empty_entry\<close>, which returned slot 1
  before, returns the tombstoned slot 0.
\<close>

theorem tombstone_is_reused:
  "slot_in_use dir_example 0
   \<and> find_empty_entry dir_example (replicate 128 0) = Inr 1
   \<and> fst (find_file dir_example (replicate 128 0) (bytes ''foo.txt'') True) = Inr 4
   \<and> flag (slot_entry (snd (find_file dir_example (replicate 128 0) (bytes ''foo.txt'') True)) 0)
       = FLAG_DELETED
   \<and> flag (slot_entry (snd (find_file dir_example (replicate 128 0) (bytes ''foo.txt'') True)) 0)
       AND FLAG_IN_USE = 0
   \<and> find_empty_entry (snd (find_file dir_example (replicate 128 0) (bytes ''foo.txt'') True))
       (replicate 128 0) = Inr 0"
proof -
  define st' where "st' = poke dir_example (361 + 0 div 8)
       ((sector_at dir_example (361 + 0 div 8))[16 * (0 mod 8) := 0x80])"
  have r: "find_file dir_example (replicate 128 0) (bytes ''foo.txt'') True = (Inr 4, st')"
    using find_file_find[OF dir_example_dir, of "replicate 128 0" "bytes ''foo.txt''" True]
    by (simp add: dir_example_find dir_example_slot0 entry_start_def st'_def)
  have e: "slot_entry st' 0 = (slot_entry dir_example 0)\<lparr>flag := 0x80\<rparr>"
    unfolding st'_def using slot_entry_poke_flag[OF dir_example_dir, of 0 0 "0x80"] by simp
  have di: "dir_in_image st'"
    unfolding st'_def by (rule dir_in_image_poke) (simp_all add: dir_example_361 length_foo_entry dir_example_dir)
  have "\<not> slot_in_use st' 0" using e by (simp add: slot_in_use_def)
  then have "List.find (\<lambda>k. \<not> slot_in_use st' k) [0..<64] = Some 0"
    by (subst find_upt_rec) simp
  then have f: "find_empty_entry st' (replicate 128 0) = Inr 0"
    using find_empty_entry_find[OF di, of "replicate 128 0"] by simp
  show ?thesis using r e f dir_example_empty by (simp add: dir_example_slot0 slot_in_use_def)
qed

theorem delete_clears_in_use_witness:
  "dir_in_image dir_example \<and> length (replicate 128 (0::u8)) = 128
   \<and> List.find (slot_matches dir_example (bytes ''foo.txt'')) [0..<64] = Some 0
   \<and> (\<exists>st'. find_file dir_example (replicate 128 0) (bytes ''foo.txt'') True = (Inr 4, st')
          \<and> flag (slot_entry st' 0) = FLAG_DELETED
          \<and> \<not> slot_in_use st' 0
          \<and> find_empty_entry st' (replicate 128 0) = Inr 0)"
proof -
  have l: "length (replicate 128 (0::u8)) = 128" by simp
  from delete_clears_in_use[OF dir_example_dir l dir_example_find]
  obtain st' where "find_file dir_example (replicate 128 0) (bytes ''foo.txt'') True
        = (Inr (entry_start (slot_entry dir_example 0)), st')"
    "slot_entry st' 0 = (slot_entry dir_example 0)\<lparr>flag := FLAG_DELETED\<rparr>"
    "\<not> slot_in_use st' 0"
    "find_empty_entry st' (replicate 128 0)
           = Inr (case List.find (\<lambda>j. \<not> slot_in_use dir_example j) [0..<0] of None \<Rightarrow> 0 | Some j \<Rightarrow> j)"
    by blast
  then have "\<exists>st'. find_file dir_example (replicate 128 0) (bytes ''foo.txt'') True = (Inr 4, st')
          \<and> flag (slot_entry st' 0) = FLAG_DELETED
          \<and> \<not> slot_in_use st' 0
          \<and> find_empty_entry st' (replicate 128 0) = Inr 0"
    by (simp add: dir_example_slot0 entry_start_def)
  with dir_example_dir l dir_example_find show ?thesis by blast
qed

section \<open>Writing a file\<close>

lemma length_data_sector:
  "125 * (x + 1) \<le> length buf \<Longrightarrow> length (data_sector buf list sects file_no sz x) = 128"
  by (simp add: data_sector_def)

lemma write_file_loop_effect:
  assumes "distinct (map ((!) list) xs)"
    and "\<forall>x\<in>set xs. in_image st (list ! x) \<and> 125 * (x + 1) \<le> length buf"
  shows "\<exists>st'. write_file_loop st buf list sects file_no sz xs = (Inr (), st')
     \<and> disk_size st' = disk_size st \<and> cvt_ending st' = cvt_ending st
     \<and> length (disk st') = length (disk st)
     \<and> (\<forall>i<length xs. sector_at st' (list ! (xs ! i))
            = data_sector buf list sects file_no (sz - 125 * int i) (xs ! i))
     \<and> (\<forall>s. in_image st s \<longrightarrow> in_image st' s)
     \<and> (\<forall>s. in_image st s \<longrightarrow> s \<notin> (!) list ` set xs \<longrightarrow> sector_at st' s = sector_at st s)"
  using assms
proof (induction xs arbitrary: st sz)
  case Nil
  then show ?case by simp
next
  case (Cons x xs)
  define b where "b = data_sector buf list sects file_no sz x"
  define st1 where "st1 = poke st (list ! x) b"
  from Cons.prems have ix: "in_image st (list ! x)" and lx: "125 * (x + 1) \<le> length buf" by simp_all
  have px: "0 < list ! x" using ix by (simp add: in_image_def)
  have lb: "length b = 128" unfolding b_def using lx by (rule length_data_sector)
  have p: "putsect st b (list ! x) = Inr st1" unfolding st1_def using px by (rule putsect_poke)
  have step: "write_file_loop st buf list sects file_no sz (x # xs)
      = write_file_loop st1 buf list sects file_no (sz - 125) xs"
    using p by (cases "x + 1 = sects") (simp_all add: b_def data_sector_def Let_def)
  have im: "in_image st s \<Longrightarrow> in_image st1 s" for s
    unfolding st1_def using px lb by (rule poke_in_image)
  have same: "sector_at st1 (list ! x) = b" unfolding st1_def using px lb by (rule poke_same)
  have other: "in_image st s \<Longrightarrow> s \<noteq> list ! x \<Longrightarrow> sector_at st1 s = sector_at st s" for s
    unfolding st1_def using px lb by (rule poke_other)
  have d: "distinct (map ((!) list) xs)" using Cons.prems(1) by simp
  have r: "\<forall>x\<in>set xs. in_image st1 (list ! x) \<and> 125 * (x + 1) \<le> length buf"
    using Cons.prems(2) im by simp
  from Cons.IH[OF d r, of "sz - 125"] obtain st' where
        w: "write_file_loop st1 buf list sects file_no (sz - 125) xs = (Inr (), st')"
    and f: "disk_size st' = disk_size st1" "cvt_ending st' = cvt_ending st1"
           "length (disk st') = length (disk st1)"
    and s: "\<forall>i<length xs. sector_at st' (list ! (xs ! i))
            = data_sector buf list sects file_no (sz - 125 - 125 * int i) (xs ! i)"
    and i': "\<forall>s. in_image st1 s \<longrightarrow> in_image st' s"
    and o': "\<forall>s. in_image st1 s \<longrightarrow> s \<notin> (!) list ` set xs \<longrightarrow> sector_at st' s = sector_at st1 s"
    by blast
  have nx: "list ! x \<notin> (!) list ` set xs" using Cons.prems(1) by auto
  have first: "sector_at st' (list ! x) = b" using o' im[OF ix] nx same by simp
  have all: "sector_at st' (list ! ((x # xs) ! i))
            = data_sector buf list sects file_no (sz - 125 * int i) ((x # xs) ! i)"
    if "i < length (x # xs)" for i
  proof (cases i)
    case 0
    then show ?thesis using first by (simp add: b_def)
  next
    case (Suc j)
    then have "j < length xs" using that by simp
    with s have "sector_at st' (list ! (xs ! j))
            = data_sector buf list sects file_no (sz - 125 - 125 * int j) (xs ! j)" by simp
    moreover have "sz - 125 - 125 * int j = sz - 125 * int (Suc j)" by simp
    ultimately show ?thesis using Suc by simp
  qed
  have frame: "sector_at st' s = sector_at st s"
    if "in_image st s" "s \<notin> (!) list ` set (x # xs)" for s
    using that o' im other by auto
  have "disk_size st' = disk_size st" "cvt_ending st' = cvt_ending st"
    using f by (simp_all add: st1_def)
  moreover have "length (disk st') = length (disk st)"
    using f(3) poke_length[OF lb ix] by (simp add: st1_def)
  ultimately show ?case using step w all frame i' im by (intro exI[of _ st']) auto
qed

lemma and3_or_push:
  "(3::u8) AND (a OR push_bit 2 g) = take_bit 2 a"
proof -
  have "(3::u8) = mask 2" by (simp add: mask_eq_exp_minus_1)
  then show ?thesis
    by (auto simp add: and.commute[of "mask 2"] take_bit_eq_mask[symmetric] bit_eq_iff bit_simps)
qed

lemma of_nat_small: "m < 2 ^ k \<Longrightarrow> (of_nat m :: u8) = take_bit k (of_nat m)"
  by (simp add: of_nat_take_bit[symmetric] take_bit_nat_eq_self)

lemma drop2_push2: "drop_bit 2 (push_bit 2 h :: u8) = take_bit 6 h"
  by (auto simp add: bit_eq_iff bit_simps)

lemma drop2_or_push:
  "drop_bit 2 (take_bit 2 a OR push_bit 2 (take_bit 6 g)) AND (0x3F::u8) = take_bit 6 g"
proof -
  have m: "(0x3F::u8) = mask 6" by (simp add: mask_eq_exp_minus_1)
  have "drop_bit 2 (take_bit 2 a :: u8) = 0" by (simp add: drop_bit_take_bit)
  then have "drop_bit 2 (take_bit 2 a OR push_bit 2 (take_bit 6 g)) = take_bit 6 g"
    by (simp add: drop_bit_or drop2_push2 del: drop_bit_push_bit)
  then show ?thesis
    unfolding m by (simp add: take_bit_eq_mask[symmetric])
qed

lemma next_roundtrip:
  assumes "n < 1024"
  shows "unat (of_nat n :: u8) + unat ((3::u8) AND (of_nat (n div 256) OR push_bit 2 g)) * 256 = n"
proof -
  have m: "n div 256 < 2 ^ 2" using assms by simp
  have "(3::u8) AND (of_nat (n div 256) OR push_bit 2 g) = of_nat (n div 256)"
    unfolding and3_or_push using of_nat_small[OF m] by simp
  moreover have "unat (of_nat (n div 256) :: u8) = n div 256"
    using m by (simp add: unat_of_nat)
  ultimately show ?thesis by (simp add: unat_of_nat)
qed

lemma file_no_roundtrip:
  assumes "n < 1024" "f < 64"
  shows "unat (drop_bit 2 (of_nat (n div 256) OR push_bit 2 (of_nat f) :: u8) AND 0x3F) = f"
proof -
  have m: "n div 256 < 2 ^ 2" using assms by simp
  have f: "f < 2 ^ 6" using assms by simp
  have "drop_bit 2 (of_nat (n div 256) OR push_bit 2 (of_nat f) :: u8) AND 0x3F
      = drop_bit 2 (take_bit 2 (of_nat (n div 256)) OR push_bit 2 (take_bit 6 (of_nat f)) :: u8) AND 0x3F"
    using of_nat_small[OF m] of_nat_small[OF f] by simp
  also have "\<dots> = take_bit 6 (of_nat f)" by (rule drop2_or_push)
  also have "\<dots> = of_nat f" using of_nat_small[OF f] by simp
  finally show ?thesis using assms(2) by (simp add: unat_of_nat)
qed

lemma nth_data_sector:
  assumes "125 * (x + 1) \<le> length buf"
  shows "take 125 (data_sector buf list sects file_no sz x) = take 125 (drop (125 * x) buf)"
    and "data_sector buf list sects file_no sz x ! 125 =
          of_nat ((if x + 1 = sects then 0 else list ! (x + 1)) div 256) OR push_bit 2 (of_nat file_no)"
    and "data_sector buf list sects file_no sz x ! 126 =
          of_nat (if x + 1 = sects then 0 else list ! (x + 1))"
    and "data_sector buf list sects file_no sz x ! 127 =
          (if x + 1 = sects then word_of_int sz else 125)"
  using assms by (simp_all add: data_sector_def nth_append)

lemma data_sector_decode:
  assumes "125 * (x + 1) \<le> length buf" "file_no < 64"
    and "x + 1 \<noteq> sects \<Longrightarrow> list ! (x + 1) < 1024"
  shows "sector_next (data_sector buf list sects file_no sz x)
           = (if x + 1 = sects then 0 else list ! (x + 1))"
    and "sector_file_no (data_sector buf list sects file_no sz x) = file_no"
    and "sector_bytes (data_sector buf list sects file_no sz x)
           = (if x + 1 = sects then unat (word_of_int sz :: u8) else 125)"
proof -
  define n where "n = (if x + 1 = sects then 0 else list ! (x + 1))"
  have n: "n < 1024" using assms(3) by (simp add: n_def)
  show "sector_next (data_sector buf list sects file_no sz x)
           = (if x + 1 = sects then 0 else list ! (x + 1))"
    unfolding sector_next_def nth_data_sector[OF assms(1)] n_def[symmetric]
    using next_roundtrip[OF n] by simp
  show "sector_file_no (data_sector buf list sects file_no sz x) = file_no"
    unfolding sector_file_no_def nth_data_sector[OF assms(1)] n_def[symmetric]
    using file_no_roundtrip[OF n assms(2)] by simp
  show "sector_bytes (data_sector buf list sects file_no sz x)
           = (if x + 1 = sects then unat (word_of_int sz :: u8) else 125)"
    unfolding sector_bytes_def nth_data_sector[OF assms(1)] by simp
qed

lemma valid_image_in_image:
  "valid_image st \<Longrightarrow> 0 < s \<Longrightarrow> s < disk_size st \<Longrightarrow> in_image st s"
  by (auto simp add: valid_image_def in_image_def)

lemma valid_image_disk_size: "valid_image st \<Longrightarrow> disk_size st \<le> 1024"
  by (auto simp add: valid_image_def)

lemma valid_image_dir: "valid_image st \<Longrightarrow> dir_in_image st"
  by (auto simp add: valid_image_def dir_in_image_def dir_sectors_def in_image_def upt_rec_numeral)

lemma valid_image_vtoc:
  "valid_image st \<Longrightarrow> in_image st 360"
  "valid_image st \<Longrightarrow> disk_size st = 1024 \<Longrightarrow> in_image st 1024"
  by (auto simp add: valid_image_def in_image_def)

lemma alloc_space_success:
  assumes "ds \<le> 8 * length bitmap" "alloc_space ds bitmap n = (Inr (), bitmap', lst)"
  shows "length lst = n" "distinct lst" "\<forall>x\<in>set lst. 0 < x \<and> x < ds \<and> is_free bitmap x"
    "lst = take n (free_sectors ds bitmap)"
    "bitmap' = foldl (\<lambda>b x. mark_space b x True) bitmap lst"
proof -
  have eq: "(Inr (), bitmap', lst) =
    (if n \<le> length (free_sectors ds bitmap) then Inr () else Inl InsufficientSpace,
     foldl (\<lambda>b x. mark_space b x True) bitmap (take n (free_sectors ds bitmap)),
     take n (free_sectors ds bitmap))"
    using alloc_space_result[OF assms(1), of n] assms(2) by simp
  then have n: "n \<le> length (free_sectors ds bitmap)" by (simp split: if_splits)
  from eq show l: "lst = take n (free_sectors ds bitmap)" by blast
  from eq show "bitmap' = foldl (\<lambda>b x. mark_space b x True) bitmap lst" unfolding l by blast
  show "length lst = n" using l n by simp
  have "sorted_wrt (<) lst" unfolding l by (intro sorted_wrt_take sorted_free_sectors)
  then show "distinct lst" by (simp add: strict_sorted_iff)
  have "set lst \<subseteq> set (free_sectors ds bitmap)" unfolding l by (rule set_take_subset)
  then show "\<forall>x\<in>set lst. 0 < x \<and> x < ds \<and> is_free bitmap x"
    by (auto simp add: free_sectors_def)
qed

lemma unat_word_of_int_small:
  "0 \<le> v \<Longrightarrow> v < 256 \<Longrightarrow> unat (word_of_int v :: u8) = nat v"
  by (simp add: unat_eq_nat_uint uint_word_of_int take_bit_eq_mod)

lemma write_file_effect:
  assumes "valid_image st" "length bitmap = 128"
    and "length buf = 125 * sects"
    and alloc: "alloc_space (disk_size st) bitmap sects = (Inr (), bitmap', lst)"
  shows "\<exists>st'. write_file st bitmap buf sects file_no sz
             = (Inr (if sects = 0 then 0 else lst ! 0), bitmap', st')
     \<and> disk_size st' = disk_size st \<and> cvt_ending st' = cvt_ending st
     \<and> valid_image st'
     \<and> (\<forall>x < sects. sector_at st' (lst ! x)
            = data_sector buf (lst @ replicate (1024 - length lst) 0) sects file_no (sz - 125 * int x) x)
     \<and> (\<forall>s. in_image st s \<longrightarrow> in_image st' s)
     \<and> (\<forall>s. in_image st s \<longrightarrow> s \<notin> set lst \<longrightarrow> sector_at st' s = sector_at st s)"
proof -
  define list where "list = lst @ replicate (1024 - length lst) 0"
  have ds: "disk_size st \<le> 8 * length bitmap"
    using valid_image_disk_size[OF assms(1)] assms(2) by simp
  note A = alloc_space_success[OF ds alloc]
  have nth: "list ! x = lst ! x" if "x < sects" for x
    using that A(1) by (simp add: list_def nth_append)
  have m: "map ((!) list) [0..<sects] = lst"
    using A(1) nth by (intro nth_equalityI) simp_all
  have d: "distinct (map ((!) list) [0..<sects])" using m A(2) by simp
  have r: "\<forall>x\<in>set [0..<sects]. in_image st (list ! x) \<and> 125 * (x + 1) \<le> length buf"
  proof
    fix x assume "x \<in> set [0..<sects]"
    then have x: "x < sects" by simp
    then have "lst ! x \<in> set lst" using A(1) by simp
    with A(3) have "0 < lst ! x" "lst ! x < disk_size st" by auto
    then have "in_image st (lst ! x)" by (rule valid_image_in_image[OF assms(1)])
    moreover have "125 * (x + 1) \<le> length buf" using x assms(3) by simp
    ultimately show "in_image st (list ! x) \<and> 125 * (x + 1) \<le> length buf"
      using nth[OF x] by simp
  qed
  from write_file_loop_effect[OF d r, of sects file_no sz] obtain st' where
        w: "write_file_loop st buf list sects file_no sz [0..<sects] = (Inr (), st')"
    and f: "disk_size st' = disk_size st" "cvt_ending st' = cvt_ending st"
           "length (disk st') = length (disk st)"
    and s: "\<forall>i<length [0..<sects]. sector_at st' (list ! ([0..<sects] ! i))
            = data_sector buf list sects file_no (sz - 125 * int i) ([0..<sects] ! i)"
    and i: "\<forall>s. in_image st s \<longrightarrow> in_image st' s"
    and o: "\<forall>s. in_image st s \<longrightarrow> s \<notin> (!) list ` set [0..<sects] \<longrightarrow> sector_at st' s = sector_at st s"
    by blast
  have img: "(!) list ` set [0..<sects] = set lst"
    using m by (metis list.set_map)
  have first: "list ! 0 = (if sects = 0 then 0 else lst ! 0)"
    using A(1) by (cases lst) (auto simp add: list_def)
  have res: "write_file st bitmap buf sects file_no sz
             = (Inr (if sects = 0 then 0 else lst ! 0), bitmap', st')"
    using alloc w first by (simp add: write_file_def list_def[symmetric] Let_def)
  have "\<forall>x < sects. sector_at st' (lst ! x)
            = data_sector buf list sects file_no (sz - 125 * int x) x"
    using s nth by simp
  moreover have "valid_image st'" using assms(1) f by (simp add: valid_image_def)
  ultimately show ?thesis using res f i o img unfolding list_def by auto
qed

text \<open>
  C3. \<^verbatim>\<open>write_file\<close> as \<^verbatim>\<open>put_file\<close> calls it: on an image \<^verbatim>\<open>main\<close> accepts, with a
  buffer of \<open>sects\<close> blocks of 125 bytes for a file of \<open>sz\<close> bytes, \<open>sects\<close> being \<open>sz\<close>
  divided by 125 and rounded up, and \<open>lst\<close> the sectors \<^verbatim>\<open>alloc_space\<close> stores. It
  returns the first of them (0 when there is none). Afterwards sector \<open>lst ! x\<close> holds
  the 125 bytes of block \<open>x\<close>, the file number in the upper six bits of byte 125, as
  next sector the following element of the list and as byte count 125, but for the last
  one, which holds next sector 0 and as byte count what remains of the file. Sectors
  outside the list stay as they were.
\<close>

theorem write_file_chain:
  assumes "valid_image st" "length bitmap = 128" "file_no < 64"
    and "length buf = 125 * sects" "0 \<le> sz" "sects = (nat sz + 124) div 125"
    and "alloc_space (disk_size st) bitmap sects = (Inr (), bitmap', lst)"
  shows "\<exists>st'. write_file st bitmap buf sects file_no sz
             = (Inr (if sects = 0 then 0 else lst ! 0), bitmap', st')
     \<and> (\<forall>x < sects.
            take 125 (sector_at st' (lst ! x)) = take 125 (drop (125 * x) buf)
          \<and> sector_file_no (sector_at st' (lst ! x)) = file_no
          \<and> sector_next (sector_at st' (lst ! x)) = (if x + 1 = sects then 0 else lst ! (x + 1))
          \<and> sector_bytes (sector_at st' (lst ! x))
              = (if x + 1 = sects then nat sz - 125 * x else 125))
     \<and> (\<forall>s. in_image st s \<longrightarrow> s \<notin> set lst \<longrightarrow> sector_at st' s = sector_at st s)"
proof -
  define list where "list = lst @ replicate (1024 - length lst) 0"
  have ds: "disk_size st \<le> 8 * length bitmap"
    using valid_image_disk_size[OF assms(1)] assms(2) by simp
  note A = alloc_space_success[OF ds assms(7)]
  from write_file_effect[OF assms(1,2,4,7), of file_no sz] obtain st' where
        r: "write_file st bitmap buf sects file_no sz
             = (Inr (if sects = 0 then 0 else lst ! 0), bitmap', st')"
    and s: "\<forall>x < sects. sector_at st' (lst ! x)
            = data_sector buf list sects file_no (sz - 125 * int x) x"
    and o: "\<forall>s. in_image st s \<longrightarrow> s \<notin> set lst \<longrightarrow> sector_at st' s = sector_at st s"
    unfolding list_def by blast
  have dec: "take 125 (sector_at st' (lst ! x)) = take 125 (drop (125 * x) buf)
          \<and> sector_file_no (sector_at st' (lst ! x)) = file_no
          \<and> sector_next (sector_at st' (lst ! x)) = (if x + 1 = sects then 0 else lst ! (x + 1))
          \<and> sector_bytes (sector_at st' (lst ! x))
              = (if x + 1 = sects then nat sz - 125 * x else 125)"
    if x: "x < sects" for x
  proof -
    have lb: "125 * (x + 1) \<le> length buf" using x assms(4) by simp
    have nx: "list ! (x + 1) < 1024" if "x + 1 \<noteq> sects"
    proof -
      from that x have x1: "x + 1 < length lst" using A(1) by simp
      then have "lst ! (x + 1) \<in> set lst" by simp
      with A(3) valid_image_disk_size[OF assms(1)] have "lst ! (x + 1) < 1024" by fastforce
      then show ?thesis using x1 by (simp add: list_def nth_append)
    qed
    have le: "list ! (x + 1) = lst ! (x + 1)" if "x + 1 \<noteq> sects"
      using that x A(1) by (simp add: list_def nth_append)
    have last: "unat (word_of_int (sz - 125 * int x) :: u8) = nat sz - 125 * x" if "x + 1 = sects"
    proof -
      have "125 * sects \<le> nat sz + 124" "nat sz + 124 < 125 * sects + 125"
        using assms(6) by simp_all
      with that have "125 * x < nat sz" "nat sz \<le> 125 * x + 125" by simp_all
      with assms(5) have "0 \<le> sz - 125 * int x" "sz - 125 * int x < 256" by linarith+
      then have "unat (word_of_int (sz - 125 * int x) :: u8) = nat (sz - 125 * int x)"
        by (rule unat_word_of_int_small)
      also have "\<dots> = nat sz - 125 * x" using assms(5) by (simp add: nat_diff_distrib')
      finally show ?thesis .
    qed
    show ?thesis
      using s x nth_data_sector(1)[OF lb, of list sects file_no "sz - 125 * int x"]
        data_sector_decode[OF lb assms(3) nx, of sects "sz - 125 * int x"] le last
      by simp
  qed
  from r dec o show ?thesis by blast
qed

theorem write_file_chain_witness:
  "valid_image blank_sd \<and> length (0x0F # replicate 127 (0::u8)) = 128 \<and> (0::nat) < 64
   \<and> length (replicate 250 (0x41::u8)) = 125 * 2 \<and> (0::int) \<le> 126 \<and> (2::nat) = (nat 126 + 124) div 125
   \<and> alloc_space (disk_size blank_sd) (0x0F # replicate 127 0) 2
        = (Inr (), 0x03 # replicate 127 0, [4, 5])
   \<and> (\<exists>st'. write_file blank_sd (0x0F # replicate 127 0) (replicate 250 0x41) 2 0 126
               = (Inr 4, 0x03 # replicate 127 0, st')
          \<and> take 125 (sector_at st' 4) = replicate 125 0x41
          \<and> sector_next (sector_at st' 4) = 5 \<and> sector_bytes (sector_at st' 4) = 125
          \<and> sector_next (sector_at st' 5) = 0 \<and> sector_bytes (sector_at st' 5) = 1
          \<and> sector_file_no (sector_at st' 5) = 0)"
proof -
  have v: "valid_image blank_sd" by (simp add: valid_image_def blank_sd_def)
  have l: "length (0x0F # replicate 127 (0::u8)) = 128" by simp
  have f: "(0::nat) < 64" by simp
  have b: "length (replicate 250 (0x41::u8)) = 125 * 2" by simp
  have z: "(0::int) \<le> 126" by simp
  have n: "(2::nat) = (nat 126 + 124) div 125" by simp
  have a: "alloc_space (disk_size blank_sd) (0x0F # replicate 127 0) 2
        = (Inr (), 0x03 # replicate 127 0, [4, 5])"
    by (simp add: alloc_eval del: upt_rec_numeral One_nat_def)
  from write_file_chain[OF v l f b z n a] obtain st' where
     r: "write_file blank_sd (0x0F # replicate 127 0) (replicate 250 0x41) 2 0 126
               = (Inr (if (2::nat) = 0 then 0 else [4, 5] ! 0), 0x03 # replicate 127 0, st')"
     and s: "\<forall>x < 2.
            take 125 (sector_at st' ([4, 5] ! x)) = take 125 (drop (125 * x) (replicate 250 0x41))
          \<and> sector_file_no (sector_at st' ([4, 5] ! x)) = 0
          \<and> sector_next (sector_at st' ([4, 5] ! x)) = (if x + 1 = 2 then 0 else [4, 5] ! (x + 1))
          \<and> sector_bytes (sector_at st' ([4, 5] ! x))
              = (if x + 1 = 2 then nat 126 - 125 * x else 125)"
    by blast
  from s[rule_format, of 0] s[rule_format, of 1] r
  have "write_file blank_sd (0x0F # replicate 127 0) (replicate 250 0x41) 2 0 126
               = (Inr 4, 0x03 # replicate 127 0, st')
          \<and> take 125 (sector_at st' 4) = replicate 125 0x41
          \<and> sector_next (sector_at st' 4) = 5 \<and> sector_bytes (sector_at st' 4) = 125
          \<and> sector_next (sector_at st' 5) = 0 \<and> sector_bytes (sector_at st' 5) = 1
          \<and> sector_file_no (sector_at st' 5) = 0"
    by simp
  with v l f b z n a show ?thesis by blast
qed

section \<open>Putting a file on the image\<close>

lemma putbitmap_explicit:
  assumes "in_image st 360" "length u = 128" "length bitmap = 128"
    and "disk_size st = 1024 \<Longrightarrow> in_image st 1024"
  shows "putbitmap st u bitmap =
    (Inr (),
     let st1 = poke st 360 ((memcpy (sector_at st 360) 10 bitmap 0 90)
                   [3 := of_nat (count_free bitmap 90), 4 := of_nat (count_free bitmap 90 div 256)])
     in if disk_size st = 1024
        then poke st1 1024 ((memcpy (sector_at st 1024) 0 bitmap 6 122)
                   [122 := of_nat (count_free (drop 90 bitmap) 38),
                    123 := of_nat (count_free (drop 90 bitmap) 38 div 256)])
        else st1)"
proof -
  define v where "v = (memcpy (sector_at st 360) 10 bitmap 0 90)
                   [3 := of_nat (count_free bitmap 90), 4 := of_nat (count_free bitmap 90 div 256)]"
  define st1 where "st1 = poke st 360 v"
  have g1: "getsect st u 360 = Inr (sector_at st 360)" using assms(1,2) by (rule getsect_in_image)
  have lv: "length v = 128"
    using vtoc_written(1)[OF length_sector_at[OF assms(1)] assms(3)] by (simp add: v_def)
  have p1: "putsect st v 360 = Inr st1" unfolding st1_def by (rule putsect_poke) simp
  have ds1: "disk_size st1 = disk_size st" by (simp add: st1_def)
  show ?thesis
  proof (cases "disk_size st = 1024")
    case False
    then show ?thesis using g1 p1 ds1
      by (simp add: putbitmap_def Let_def v_def[symmetric] st1_def[symmetric] del: One_nat_def)
  next
    case True
    have i2: "in_image st1 1024" unfolding st1_def
      using assms(4)[OF True] lv by (intro poke_in_image) simp_all
    have s2: "sector_at st1 1024 = sector_at st 1024" unfolding st1_def
      using assms(4)[OF True] lv by (intro poke_other) simp_all
    have g2: "getsect st1 u 1024 = Inr (sector_at st 1024)"
      using getsect_in_image[OF i2 assms(2)] s2 by simp
    have p2: "putsect st1 b 1024 = Inr (poke st1 1024 b)" for b by (rule putsect_poke) simp
    show ?thesis using True g1 p1 g2 p2 ds1
      by (simp add: putbitmap_def Let_def v_def[symmetric] st1_def[symmetric] del: One_nat_def)
  qed
qed

lemma valid_image_poke:
  "valid_image st \<Longrightarrow> in_image st s \<Longrightarrow> length b = 128 \<Longrightarrow> valid_image (poke st s b)"
  using poke_length[of b st s] by (simp add: valid_image_def)

lemma putbitmap_valid:
  assumes "valid_image st" "length u = 128" "length bitmap = 128"
  shows "\<exists>st'. putbitmap st u bitmap = (Inr (), st') \<and> valid_image st'
     \<and> cvt_ending st' = cvt_ending st \<and> disk_size st' = disk_size st
     \<and> take 90 (drop 10 (sector_at st' 360)) = take 90 bitmap
     \<and> (disk_size st = 1024 \<longrightarrow> take 38 (drop 84 (sector_at st' 1024)) = drop 90 bitmap)
     \<and> (\<forall>s. in_image st s \<longrightarrow> s \<noteq> 360 \<longrightarrow> s \<noteq> 1024 \<longrightarrow> sector_at st' s = sector_at st s)"
proof -
  define v where "v = (memcpy (sector_at st 360) 10 bitmap 0 90)
                   [3 := of_nat (count_free bitmap 90), 4 := of_nat (count_free bitmap 90 div 256)]"
  define w where "w = (memcpy (sector_at st 1024) 0 bitmap 6 122)
                   [122 := of_nat (count_free (drop 90 bitmap) 38),
                    123 := of_nat (count_free (drop 90 bitmap) 38 div 256)]"
  define st1 where "st1 = poke st 360 v"
  define st' where "st' = (if disk_size st = 1024 then poke st1 1024 w else st1)"
  note i1 = valid_image_vtoc(1)[OF assms(1)] and i2 = valid_image_vtoc(2)[OF assms(1)]
  have r: "putbitmap st u bitmap = (Inr (), st')"
    using putbitmap_explicit[OF i1 assms(2,3) i2]
    by (simp add: Let_def v_def w_def st1_def st'_def)
  note V = vtoc_written[OF length_sector_at[OF i1] assms(3), folded v_def]
  have v1: "valid_image st1" unfolding st1_def using assms(1) i1 V(1) by (rule valid_image_poke)
  have s1: "sector_at st1 360 = v" unfolding st1_def by (rule poke_same) (simp_all add: V(1))
  have o1: "in_image st s \<Longrightarrow> s \<noteq> 360 \<Longrightarrow> sector_at st1 s = sector_at st s" for s
    unfolding st1_def using V(1) by (intro poke_other) simp_all
  have im1: "in_image st s \<Longrightarrow> in_image st1 s" for s
    unfolding st1_def using V(1) by (intro poke_in_image) simp_all
  show ?thesis
  proof (cases "disk_size st = 1024")
    case False
    then have "st' = st1" by (simp add: st'_def)
    with r v1 s1 o1 V(2) False show ?thesis by (auto simp add: st1_def)
  next
    case True
    then have e: "st' = poke st1 1024 w" by (simp add: st'_def)
    note W = vtoc2_written[OF length_sector_at[OF i2[OF True]] assms(3), folded w_def]
    have v2: "valid_image st'" unfolding e using v1 im1[OF i2[OF True]] W(1) by (rule valid_image_poke)
    have s2: "sector_at st' 1024 = w" unfolding e by (rule poke_same) (simp_all add: W(1))
    have o2: "in_image st1 s \<Longrightarrow> s \<noteq> 1024 \<Longrightarrow> sector_at st' s = sector_at st1 s" for s
      unfolding e using W(1) by (intro poke_other) simp_all
    have "take 38 (drop 84 (take 122 w)) = take 38 (drop 84 w)"
      by (rule take_drop_take) simp
    with W(2) assms(3) have b2: "take 38 (drop 84 w) = drop 90 bitmap" by simp
    have b1: "take 90 (drop 10 (sector_at st' 360)) = take 90 bitmap"
      using o2[OF im1[OF i1]] s1 V(2) by simp
    have fr: "\<forall>s. in_image st s \<longrightarrow> s \<noteq> 360 \<longrightarrow> s \<noteq> 1024 \<longrightarrow> sector_at st' s = sector_at st s"
      using o1 o2 im1 by simp
    have "cvt_ending st' = cvt_ending st" "disk_size st' = disk_size st"
      by (simp_all add: e st1_def)
    with r v2 b1 b2 s2 fr show ?thesis by auto
  qed
qed

lemma getbitmap_valid:
  assumes "valid_image st" "length u = 128" "length bm = 128"
  shows "\<exists>bitmap. getbitmap st u bm False = Inr (bitmap, []) \<and> length bitmap = 128
      \<and> take 90 bitmap = take 90 (drop 10 (sector_at st 360))
      \<and> (disk_size st = 1024 \<longrightarrow> drop 90 bitmap = take 38 (drop 84 (sector_at st 1024)))"
  using getbitmap_in_image[OF valid_image_vtoc(1)[OF assms(1)] assms(2) valid_image_vtoc(2)[OF assms(1)], of bm False]
    length_sector_at[OF valid_image_vtoc(1)[OF assms(1)]] assms(3)
    length_sector_at[OF valid_image_vtoc(2)[OF assms(1)]]
  by (cases "disk_size st = 1024") simp_all

lemma del_file_loop_length:
  assumes "del_file_loop st u bitmap s = Some (Inr bm')"
  shows "length bm' = length bitmap"
proof -
  have "\<forall>b. (Inr bm' :: error + u8 list) = Inr b \<longrightarrow> length b = length bitmap"
  proof (rule del_file_loop.raw_induct[where
        P = "\<lambda>st u bitmap s y. \<forall>b. y = Inr b \<longrightarrow> length b = length bitmap", OF _ assms])
    fix f :: "state \<Rightarrow> sector \<Rightarrow> u8 list \<Rightarrow> nat \<Rightarrow> (error + u8 list) option"
      and st0 u0 bm0 s0 y0
    assume IH: "\<And>st1 u1 bm1 s1 y1. f st1 u1 bm1 s1 = Some y1 \<Longrightarrow>
                  \<forall>b. y1 = Inr b \<longrightarrow> length b = length bm1"
      and step: "(case getsect st0 u0 s0 of
          Inl e \<Rightarrow> Some (Inl e)
        | Inr buf \<Rightarrow>
            let next = unat (buf ! 126) + unat (3 AND buf ! 125) * 256
            in if 128 \<le> s0 div 8 then Some (Inl OutOfBounds)
               else let bitmap' = mark_space bm0 s0 False
                    in if next \<noteq> 0 then f st0 u0 bitmap' next else Some (Inr bitmap')) = Some y0"
    show "\<forall>b. y0 = Inr b \<longrightarrow> length b = length bm0"
    proof (cases "getsect st0 u0 s0")
      case (Inl e)
      with step show ?thesis by auto
    next
      case (Inr buf)
      show ?thesis
      proof (cases "128 \<le> s0 div 8")
        case True
        with step Inr show ?thesis by (auto simp add: Let_def)
      next
        case False
        show ?thesis
        proof (cases "unat (buf ! 126) + unat (3 AND buf ! 125) * 256 = 0")
          case True
          with step Inr False show ?thesis by (auto simp add: Let_def)
        next
          case nz: False
          with step Inr False
          have "f st0 u0 (mark_space bm0 s0 False) (unat (buf ! 126) + unat (3 AND buf ! 125) * 256)
                  = Some y0"
            by (simp add: Let_def)
          from IH[OF this] show ?thesis by simp
        qed
      qed
    qed
  qed
  then show ?thesis by simp
qed

text \<open>A directory entry is the sixteen bytes at its offset.\<close>

lemma dirent_at_window:
  "y + 16 \<le> length buf \<Longrightarrow> dirent_at buf y = dirent_at (take 16 (drop y buf)) 0"
  by (simp add: dirent_at_def take_drop add.commute)

lemma memcpy16_same:
  assumes "y + 16 \<le> length buf" "length b = 16"
  shows "take 16 (drop y (memcpy buf y b 0 16)) = b"
proof -
  have "length (take y buf) = y" using assms by simp
  then have "drop y (take y buf @ b @ drop (y + 16) buf) = b @ drop (y + 16) buf"
    by (metis append_eq_conv_conj)
  then show ?thesis using assms by (simp add: memcpy_def)
qed

lemma memcpy16_other:
  assumes "y + 16 \<le> length buf" "length b = 16" "y' + 16 \<le> length buf"
    and "y' + 16 \<le> y \<or> y + 16 \<le> y'"
  shows "take 16 (drop y' (memcpy buf y b 0 16)) = take 16 (drop y' buf)"
proof (cases "y' + 16 \<le> y")
  case True
  have "y' + 16 \<le> length (take y buf)" using True assms(1) by simp
  then have "take 16 (drop y' (take y buf @ b @ drop (y + 16) buf)) = take 16 (drop y' (take y buf))"
    by (rule take_drop_append_left)
  also have "\<dots> = take 16 (drop y' buf)" using True by (simp add: drop_take min_def)
  finally show ?thesis using assms(2) by (simp add: memcpy_def)
next
  case False
  with assms(4) have le: "y + 16 \<le> y'" by simp
  define pre where "pre = take y buf @ b"
  have l: "length pre = y + 16" using assms by (simp add: pre_def)
  have "drop y' (pre @ drop (y + 16) buf) = drop (y' - length pre) (drop (y + 16) buf)"
    using l le by (intro drop_append_right) simp
  also have "\<dots> = drop y' buf" using l le by simp
  finally show ?thesis using assms(2) by (simp add: memcpy_def pre_def)
qed

lemma length_memcpy16:
  "y + 16 \<le> length buf \<Longrightarrow> length b = 16 \<Longrightarrow> length (memcpy buf y b 0 16) = length buf"
  by (simp add: memcpy_def)

lemma length_putname: "length (fst (putname nm)) = 8" "length (snd (putname nm)) = 3"
  by (simp_all add: putname_def Let_def split: list.splits)

lemma dirent_bytes_inverse:
  "length (name d) = 8 \<Longrightarrow> length (suffix d) = 3 \<Longrightarrow> dirent_at (dirent_bytes d) 0 = d"
  by (simp add: dirent_at_def dirent_bytes_def)

lemma length_dirent_bytes:
  "length (name d) = 8 \<Longrightarrow> length (suffix d) = 3 \<Longrightarrow> length (dirent_bytes d) = 16"
  by (simp add: dirent_bytes_def)

lemma slot_entry_cong:
  "sector_at st' (361 + j div 8) = sector_at st (361 + j div 8) \<Longrightarrow> slot_entry st' j = slot_entry st j"
  by (simp add: slot_entry_def)

lemma dir_sector_not_vtoc: "(j::nat) < 64 \<Longrightarrow> 361 + j div 8 \<noteq> 360 \<and> 361 + j div 8 \<noteq> 1024"
  by auto

lemma write_dir_effect:
  assumes "valid_image st" "length u = 128" "k < 64"
  shows "\<exists>st'. write_dir st u k nm first sects = (Inr (), st') \<and> valid_image st'
     \<and> cvt_ending st' = cvt_ending st \<and> disk_size st' = disk_size st
     \<and> slot_entry st' k =
          \<lparr>flag = FLAG_IN_USE, count_lo = of_nat sects, count_hi = of_nat (sects div 256),
           start_lo = of_nat first, start_hi = of_nat (first div 256),
           name = fst (putname nm), suffix = snd (putname nm)\<rparr>
     \<and> (\<forall>j<64. j \<noteq> k \<longrightarrow> slot_entry st' j = slot_entry st j)
     \<and> (\<forall>s. in_image st s \<longrightarrow> s \<notin> set dir_sectors \<longrightarrow> sector_at st' s = sector_at st s)"
proof -
  define d where "d = \<lparr>flag = FLAG_IN_USE, count_lo = of_nat sects, count_hi = of_nat (sects div 256),
           start_lo = of_nat first, start_hi = of_nat (first div 256),
           name = fst (putname nm), suffix = snd (putname nm)\<rparr>"
  define x where "x = 361 + k div 8"
  define y where "y = 16 * (k mod 8)"
  define new where "new = memcpy (sector_at st x) y (dirent_bytes d) 0 16"
  define st' where "st' = poke st x new"
  have di: "dir_in_image st" using assms(1) by (rule valid_image_dir)
  have ix: "in_image st x" unfolding x_def using di assms(3) by (rule dir_in_image_slot)
  have lx: "length (sector_at st x) = 128" using ix by (rule length_sector_at)
  have ld: "length (dirent_bytes d) = 16"
    by (rule length_dirent_bytes) (simp_all add: d_def length_putname)
  have y: "y + 16 \<le> length (sector_at st x)" using lx by (simp add: y_def)
  have ln: "length new = 128" unfolding new_def using length_memcpy16[OF y ld] lx by simp
  have g: "getsect st u x = Inr (sector_at st x)" using ix assms(2) by (rule getsect_in_image)
  have p: "putsect st new x = Inr st'" unfolding st'_def by (rule putsect_poke) (simp add: x_def)
  have "k div (128 div 16) = k div 8" "k mod (128 div 16) = k mod 8" by simp_all
  then have r: "write_dir st u k nm first sects = (Inr (), st')"
    using g p
    by (simp add: write_dir_def d_def[symmetric] Let_def x_def[symmetric] y_def[symmetric]
        new_def[symmetric])
  have v: "valid_image st'" unfolding st'_def using assms(1) ix ln by (rule valid_image_poke)
  have same: "sector_at st' x = new" unfolding st'_def by (rule poke_same) (simp_all add: x_def ln)
  have other: "in_image st s \<Longrightarrow> s \<noteq> x \<Longrightarrow> sector_at st' s = sector_at st s" for s
    unfolding st'_def using ln by (intro poke_other) (simp_all add: x_def)
  have "dirent_at new y = dirent_at (take 16 (drop y new)) 0"
    using ln by (intro dirent_at_window) (simp add: y_def)
  also have "take 16 (drop y new) = dirent_bytes d" unfolding new_def using y ld by (rule memcpy16_same)
  also have "dirent_at (dirent_bytes d) 0 = d"
    by (rule dirent_bytes_inverse) (simp_all add: d_def length_putname)
  finally have sk: "slot_entry st' k = d"
    using same by (simp add: slot_entry_def x_def[symmetric] y_def[symmetric])
  have sj: "slot_entry st' j = slot_entry st j" if j: "j < 64" "j \<noteq> k" for j
  proof (cases "j div 8 = k div 8")
    case False
    then have "361 + j div 8 \<noteq> x" by (simp add: x_def)
    then show ?thesis using other[OF dir_in_image_slot[OF di j(1)]] by (intro slot_entry_cong) simp
  next
    case True
    with j(2) have "j mod 8 \<noteq> k mod 8" by (metis div_mult_mod_eq)
    then have o: "16 * (j mod 8) + 16 \<le> y \<or> y + 16 \<le> 16 * (j mod 8)" unfolding y_def by arith
    have yj: "16 * (j mod 8) + 16 \<le> length (sector_at st x)" using lx by simp
    have "dirent_at new (16 * (j mod 8)) = dirent_at (take 16 (drop (16 * (j mod 8)) new)) 0"
      using ln by (intro dirent_at_window) simp
    also have "take 16 (drop (16 * (j mod 8)) new) = take 16 (drop (16 * (j mod 8)) (sector_at st x))"
      unfolding new_def using y ld yj o by (rule memcpy16_other)
    also have "dirent_at \<dots> 0 = dirent_at (sector_at st x) (16 * (j mod 8))"
      using yj by (rule dirent_at_window[symmetric])
    finally show ?thesis using same True by (simp add: slot_entry_def x_def[symmetric])
  qed
  have fr: "sector_at st' s = sector_at st s" if "in_image st s" "s \<notin> set dir_sectors" for s
  proof -
    have "x \<in> set dir_sectors" unfolding x_def using assms(3) by (rule dir_sector_pos)
    with that(2) have "s \<noteq> x" by auto
    with that(1) show ?thesis by (rule other)
  qed
  have "cvt_ending st' = cvt_ending st" "disk_size st' = disk_size st" by (simp_all add: st'_def)
  with r v sk sj fr show ?thesis unfolding d_def by blast
qed

lemma rm_effect:
  assumes "valid_image st" "length u = 128" "rm st u nm ig = Some (r, st1)"
  shows "valid_image st1 \<and> cvt_ending st1 = cvt_ending st \<and> disk_size st1 = disk_size st
     \<and> (case List.find (slot_matches st nm) [0..<64] of
           None \<Rightarrow> st1 = st \<and> r = Inl NotFound
         | Some k \<Rightarrow>
             slot_entry st1 k = (slot_entry st k)\<lparr>flag := FLAG_DELETED\<rparr>
           \<and> (\<forall>j<64. j \<noteq> k \<longrightarrow> slot_entry st1 j = slot_entry st j)
           \<and> (\<forall>s. in_image st s \<longrightarrow> s \<noteq> 360 \<longrightarrow> s \<noteq> 1024 \<longrightarrow> s \<notin> set dir_sectors
                  \<longrightarrow> sector_at st1 s = sector_at st s))"
proof (cases "List.find (slot_matches st nm) [0..<64]")
  case None
  then have "find_file st u nm True = (Inl NotFound, st)"
    using find_file_find[OF valid_image_dir[OF assms(1)] assms(2), of nm True] by simp
  with assms(3) have "st1 = st" "r = Inl NotFound" by (simp_all add: rm_def)
  with None assms(1) show ?thesis by simp
next
  case (Some k)
  define x where "x = 361 + k div 8"
  define stA where "stA = poke st x ((sector_at st x)[16 * (k mod 8) := 0x80])"
  have k: "k < 64" using Some by (auto simp add: find_Some_iff)
  have di: "dir_in_image st" using assms(1) by (rule valid_image_dir)
  have ix: "in_image st x" unfolding x_def using di k by (rule dir_in_image_slot)
  have lx: "length ((sector_at st x)[16 * (k mod 8) := 0x80]) = 128"
    using length_sector_at[OF ix] by simp
  have ff: "find_file st u nm True = (Inr (entry_start (slot_entry st k)), stA)"
    using find_file_find[OF di assms(2), of nm True] Some by (simp add: stA_def x_def)
  have vA: "valid_image stA" unfolding stA_def using assms(1) ix lx by (rule valid_image_poke)
  have fA: "cvt_ending stA = cvt_ending st" "disk_size stA = disk_size st" by (simp_all add: stA_def)
  have eA: "slot_entry stA j = (if j = k then (slot_entry st k)\<lparr>flag := 0x80\<rparr> else slot_entry st j)"
    if "j < 64" for j
    unfolding stA_def x_def using di k that by (rule slot_entry_poke_flag)
  have xd: "x \<in> set dir_sectors" unfolding x_def using k by (rule dir_sector_pos)
  have oA: "sector_at stA s = sector_at st s" if "in_image st s" "s \<notin> set dir_sectors" for s
    unfolding stA_def using lx that xd by (intro poke_other) (auto simp add: x_def)
  have iA: "in_image stA s" if "in_image st s" for s
    unfolding stA_def using lx that by (intro poke_in_image) (simp_all add: x_def)
  from getbitmap_valid[OF vA assms(2) assms(2)] obtain bitmap where
    gb: "getbitmap stA u u False = Inr (bitmap, [])" and lb: "length bitmap = 128" by blast
  have dA: "del_file stA u (entry_start (slot_entry st k)) = Some (r, st1)"
    using assms(3) ff by (simp add: rm_def)
  have good: "valid_image st1 \<and> cvt_ending st1 = cvt_ending st \<and> disk_size st1 = disk_size st
      \<and> (\<forall>s. in_image stA s \<longrightarrow> s \<noteq> 360 \<longrightarrow> s \<noteq> 1024 \<longrightarrow> sector_at st1 s = sector_at stA s)"
  proof (cases "del_file_loop stA u bitmap (entry_start (slot_entry st k))")
    case None
    with dA gb show ?thesis by (simp add: del_file_def)
  next
    case (Some res)
    show ?thesis
    proof (cases res)
      case (Inl e)
      with dA gb Some have "st1 = stA" by (simp add: del_file_def)
      with vA fA show ?thesis by simp
    next
      case (Inr bm')
      have lb': "length bm' = 128" using del_file_loop_length[of stA u bitmap _ bm'] Some Inr lb by simp
      from dA gb Some Inr have pb: "putbitmap stA u bm' = (r, st1)" by (simp add: del_file_def)
      from putbitmap_valid[OF vA assms(2) lb'] pb fA show ?thesis by auto
    qed
  qed
  have sl: "slot_entry st1 j = slot_entry stA j" if "j < 64" for j
  proof -
    have "in_image stA (361 + j div 8)" using iA[OF dir_in_image_slot[OF di that]] .
    with good dir_sector_not_vtoc[OF that] have "sector_at st1 (361 + j div 8) = sector_at stA (361 + j div 8)"
      by blast
    then show ?thesis by (rule slot_entry_cong)
  qed
  have a: "slot_entry st1 k = (slot_entry st k)\<lparr>flag := 0x80\<rparr>" using sl[OF k] eA[OF k] by simp
  have b: "\<forall>j<64. j \<noteq> k \<longrightarrow> slot_entry st1 j = slot_entry st j" using sl eA by simp
  have c: "\<forall>s. in_image st s \<longrightarrow> s \<noteq> 360 \<longrightarrow> s \<noteq> 1024 \<longrightarrow> s \<notin> set dir_sectors
                  \<longrightarrow> sector_at st1 s = sector_at st s"
    using good iA oA by simp
  from good a b c Some show ?thesis by simp
qed

lemma length_alloc_space:
  "alloc_space ds bitmap n = (rc, bitmap', lst) \<Longrightarrow> length bitmap' = length bitmap"
proof (induction n arbitrary: bitmap rc bitmap' lst)
  case 0
  then show ?case by simp
next
  case (Suc n)
  show ?case
  proof (cases "List.find (is_free bitmap) [1..<ds]")
    case None
    with Suc.prems show ?thesis by simp
  next
    case (Some x)
    obtain rc0 bm0 lst0 where r: "alloc_space ds (mark_space bitmap x True) n = (rc0, bm0, lst0)"
      by (cases "alloc_space ds (mark_space bitmap x True) n") auto
    with Suc.prems Some have "bitmap' = bm0" by simp
    with Suc.IH[OF r] show ?thesis by simp
  qed
qed

lemma alloc_space_error:
  "alloc_space ds bitmap n = (Inl e, bitmap', lst) \<Longrightarrow> e = InsufficientSpace"
proof (induction n arbitrary: bitmap bitmap' lst)
  case 0
  then show ?case by simp
next
  case (Suc n)
  show ?case
  proof (cases "List.find (is_free bitmap) [1..<ds]")
    case None
    with Suc.prems show ?thesis by simp
  next
    case (Some x)
    obtain rc0 bm0 lst0 where r: "alloc_space ds (mark_space bitmap x True) n = (rc0, bm0, lst0)"
      by (cases "alloc_space ds (mark_space bitmap x True) n") auto
    with Suc.prems Some have "rc0 = Inl e" by simp
    with Suc.IH r show ?thesis by simp
  qed
qed

lemma find_empty_entry_valid:
  assumes "valid_image st" "length u = 128"
  shows "(find_empty_entry st u = Inl DirectoryFull \<and> (\<forall>k<64. slot_in_use st k))
       \<or> (\<exists>k<64. find_empty_entry st u = Inr k \<and> \<not> slot_in_use st k \<and> (\<forall>j<k. slot_in_use st j))"
proof (cases "List.find (\<lambda>k. \<not> slot_in_use st k) [0..<64]")
  case None
  then have a: "\<forall>k<64. slot_in_use st k" by (auto simp add: find_None_iff)
  from None have "find_empty_entry st u = Inl DirectoryFull"
    using find_empty_entry_find[OF valid_image_dir[OF assms(1)] assms(2)] by simp
  with a show ?thesis by simp
next
  case (Some k)
  then have a: "k < 64" "\<not> slot_in_use st k" "\<forall>j<k. slot_in_use st j"
    by (auto simp add: find_Some_iff)
  from Some have "find_empty_entry st u = Inr k"
    using find_empty_entry_find[OF valid_image_dir[OF assms(1)] assms(2)] by simp
  with a show ?thesis by blast
qed

text \<open>The rounding of \<^verbatim>\<open>put_file\<close>: \<^verbatim>\<open>up = size + 124; up -= up % 125\<close>, and \<^verbatim>\<open>up / 125\<close>.\<close>

lemma put_file_rounding:
  "(n + 125 - 1 - (n + 125 - 1) mod 125) div 125 = (n + 124) div (125::nat)"
  "n + 125 - 1 - (n + 125 - 1) mod 125 = 125 * ((n + 124) div (125::nat))"
  "125 * m div (125::nat) = m"
  by (simp_all add: minus_mod_eq_mult_div add.commute)

lemma put_file_cases:
  assumes "valid_image st" "length u = 128" "put_file st u content nm = Some (res, st')"
  defines "sects \<equiv> (length content + 124) div 125"
  defines "buf \<equiv> content @ replicate (125 * sects - length content) 0"
  obtains
    (fatal) r where "rm st u nm True = Some (r, st')" "res = r"
      "r = Inl InvalidSectorZero \<or> r = Inl OutOfBounds"
  | (full) r where "rm st u nm True = Some (r, st')" "res = Inl DirectoryFull"
      "\<forall>k<64. slot_in_use st' k"
  | (nospace) r bitmap where "rm st u nm True = Some (r, st')" "res = Inl InsufficientSpace"
      "getbitmap st' u u False = Inr (bitmap, [])"
      "length (free_sectors (disk_size st') bitmap) < sects"
  | (ok) r st1 bitmap bitmap' lst k where "rm st u nm True = Some (r, st1)" "res = Inr ()"
      "valid_image st1"
      "getbitmap st1 u u False = Inr (bitmap, [])" "length bitmap = 128"
      "k < 64" "find_empty_entry st1 u = Inr k"
      "alloc_space (disk_size st1) bitmap sects = (Inr (), bitmap', lst)"
      "valid_image st'" "cvt_ending st' = cvt_ending st"
      "slot_entry st' k =
          \<lparr>flag = FLAG_IN_USE, count_lo = of_nat sects, count_hi = of_nat (sects div 256),
           start_lo = of_nat (if sects = 0 then 0 else lst ! 0),
           start_hi = of_nat ((if sects = 0 then 0 else lst ! 0) div 256),
           name = fst (putname nm), suffix = snd (putname nm)\<rparr>"
      "set lst \<inter> set dir_sectors = {} \<longrightarrow> (\<forall>j<64. j \<noteq> k \<longrightarrow> slot_entry st' j = slot_entry st1 j)"
      "\<forall>x < sects. lst ! x \<noteq> 360 \<longrightarrow> lst ! x \<notin> set dir_sectors \<longrightarrow>
          sector_at st' (lst ! x)
            = data_sector buf (lst @ replicate (1024 - length lst) 0) sects k
                (int (length content) - 125 * int x) x"
      "\<forall>s. in_image st1 s \<longrightarrow> s \<notin> set lst \<longrightarrow> s \<noteq> 360 \<longrightarrow> s \<noteq> 1024 \<longrightarrow> s \<notin> set dir_sectors
          \<longrightarrow> sector_at st' s = sector_at st1 s"
      "disk_size st' = disk_size st1"
proof -
  from assms(3) obtain r st1 where rm: "rm st u nm True = Some (r, st1)"
    by (cases "rm st u nm True") (auto simp add: put_file_def Let_def)
  note R = rm_effect[OF assms(1,2) rm]
  then have v1: "valid_image st1" and c1: "cvt_ending st1 = cvt_ending st" by simp_all
  show thesis
  proof (cases "r = Inl InvalidSectorZero \<or> r = Inl OutOfBounds")
    case True
    with assms(3) rm have "res = r" "st' = st1" by (auto simp add: put_file_def Let_def)
    with rm True show thesis by (intro fatal[of r]) simp_all
  next
    case nf: False
    from getbitmap_valid[OF v1 assms(2) assms(2)] obtain bitmap where
      gb: "getbitmap st1 u u False = Inr (bitmap, [])" and lb: "length bitmap = 128" by blast
    have pf: "put_file st u content nm =
        (case find_empty_entry st1 u of
           Inl e \<Rightarrow> Some (Inl e, st1)
         | Inr file_no \<Rightarrow>
             (case write_file st1 bitmap buf sects file_no (int (length content)) of
                (Inl e, bitmap', st2) \<Rightarrow> Some (Inl e, st2)
              | (Inr first_sect, bitmap', st2) \<Rightarrow>
                  (case write_dir st2 u file_no nm first_sect sects of
                     (Inl e, st3) \<Rightarrow> Some (Inl e, st3)
                   | (Inr u', st3) \<Rightarrow> Some (putbitmap st3 u bitmap'))))"
      unfolding put_file_def Let_def put_file_rounding sects_def[symmetric] buf_def[symmetric]
      using rm nf gb by simp
    from find_empty_entry_valid[OF v1 assms(2)] show thesis
    proof (elim disjE conjE exE)
      assume fe: "find_empty_entry st1 u = Inl DirectoryFull" and a: "\<forall>k<64. slot_in_use st1 k"
      with pf assms(3) have "res = Inl DirectoryFull" "st' = st1" by simp_all
      with rm a show thesis by (intro full[of r]) simp_all
    next
      fix k assume k: "k < 64" and fe: "find_empty_entry st1 u = Inr k"
      obtain rc bitmap' lst where al: "alloc_space (disk_size st1) bitmap sects = (rc, bitmap', lst)"
        by (cases "alloc_space (disk_size st1) bitmap sects") auto
      have ds: "disk_size st1 \<le> 8 * length bitmap"
        using valid_image_disk_size[OF v1] lb by simp
      show thesis
      proof (cases rc)
        case (Inl e)
        then have e: "e = InsufficientSpace" using al alloc_space_error by blast
        have "write_file st1 bitmap buf sects k (int (length content)) = (Inl e, bitmap', st1)"
          using al Inl by (simp add: write_file_def)
        with pf fe assms(3) e have "res = Inl InsufficientSpace" "st' = st1" by simp_all
        moreover have "length (free_sectors (disk_size st1) bitmap) < sects"
          using alloc_space_result[OF ds, of sects] al Inl by (simp split: if_splits)
        ultimately show thesis using rm gb by (intro nospace[of r bitmap]) simp_all
      next
        case (Inr uu)
        then have al': "alloc_space (disk_size st1) bitmap sects = (Inr (), bitmap', lst)"
          using al by simp
        have lbuf: "length buf = 125 * sects"
        proof -
          have "length content \<le> 125 * sects" unfolding sects_def by presburger
          then show ?thesis by (simp add: buf_def)
        qed
        from write_file_effect[OF v1 lb lbuf al', of k "int (length content)"] obtain st2 where
              wf: "write_file st1 bitmap buf sects k (int (length content))
                     = (Inr (if sects = 0 then 0 else lst ! 0), bitmap', st2)"
          and f2: "disk_size st2 = disk_size st1" "cvt_ending st2 = cvt_ending st1"
          and v2: "valid_image st2"
          and d2: "\<forall>x < sects. sector_at st2 (lst ! x)
                = data_sector buf (lst @ replicate (1024 - length lst) 0) sects k
                    (int (length content) - 125 * int x) x"
          and i2: "\<forall>s. in_image st1 s \<longrightarrow> in_image st2 s"
          and o2: "\<forall>s. in_image st1 s \<longrightarrow> s \<notin> set lst \<longrightarrow> sector_at st2 s = sector_at st1 s"
          by blast
        define first where "first = (if sects = 0 then 0 else lst ! 0)"
        from write_dir_effect[OF v2 assms(2) k, of nm first sects] obtain st3 where
              wd: "write_dir st2 u k nm first sects = (Inr (), st3)"
          and v3: "valid_image st3"
          and f3: "cvt_ending st3 = cvt_ending st2" "disk_size st3 = disk_size st2"
          and e3: "slot_entry st3 k =
                \<lparr>flag = FLAG_IN_USE, count_lo = of_nat sects, count_hi = of_nat (sects div 256),
                 start_lo = of_nat first, start_hi = of_nat (first div 256),
                 name = fst (putname nm), suffix = snd (putname nm)\<rparr>"
          and j3: "\<forall>j<64. j \<noteq> k \<longrightarrow> slot_entry st3 j = slot_entry st2 j"
          and o3: "\<forall>s. in_image st2 s \<longrightarrow> s \<notin> set dir_sectors \<longrightarrow> sector_at st3 s = sector_at st2 s"
          by blast
        have lb': "length bitmap' = 128" using length_alloc_space[OF al'] lb by simp
        from putbitmap_valid[OF v3 assms(2) lb'] obtain st4 where
              pb: "putbitmap st3 u bitmap' = (Inr (), st4)"
          and v4: "valid_image st4"
          and f4: "cvt_ending st4 = cvt_ending st3" "disk_size st4 = disk_size st3"
          and o4: "\<forall>s. in_image st3 s \<longrightarrow> s \<noteq> 360 \<longrightarrow> s \<noteq> 1024 \<longrightarrow> sector_at st4 s = sector_at st3 s"
          by blast
        have fin: "res = Inr ()" "st' = st4"
          using pf fe wf wd pb assms(3) by (simp_all add: first_def)
        have di1: "dir_in_image st1" using v1 by (rule valid_image_dir)
        have di2: "dir_in_image st2" using v2 by (rule valid_image_dir)
        have di3: "dir_in_image st3" using v3 by (rule valid_image_dir)
        have s43: "slot_entry st4 j = slot_entry st3 j" if "j < 64" for j
          using o4 dir_in_image_slot[OF di3 that] dir_sector_not_vtoc[OF that]
          by (intro slot_entry_cong) blast
        have ek: "slot_entry st4 k =
                \<lparr>flag = FLAG_IN_USE, count_lo = of_nat sects, count_hi = of_nat (sects div 256),
                 start_lo = of_nat first, start_hi = of_nat (first div 256),
                 name = fst (putname nm), suffix = snd (putname nm)\<rparr>"
          using s43[OF k] e3 by simp
        have ej: "\<forall>j<64. j \<noteq> k \<longrightarrow> slot_entry st4 j = slot_entry st1 j"
          if dis: "set lst \<inter> set dir_sectors = {}"
        proof (intro allI impI)
          fix j :: nat assume j: "j < 64" "j \<noteq> k"
          have "361 + j div 8 \<notin> set lst" using dis dir_sector_pos[OF j(1)] by blast
          then have "sector_at st2 (361 + j div 8) = sector_at st1 (361 + j div 8)"
            using o2 dir_in_image_slot[OF di1 j(1)] by blast
          then have "slot_entry st2 j = slot_entry st1 j" by (rule slot_entry_cong)
          with s43[OF j(1)] j3 j show "slot_entry st4 j = slot_entry st1 j" by simp
        qed
        have ds1: "disk_size st1 \<le> 1024" using v1 by (rule valid_image_disk_size)
        note A = alloc_space_success[OF ds al']
        have dat: "\<forall>x < sects. lst ! x \<noteq> 360 \<longrightarrow> lst ! x \<notin> set dir_sectors \<longrightarrow>
          sector_at st4 (lst ! x)
            = data_sector buf (lst @ replicate (1024 - length lst) 0) sects k
                (int (length content) - 125 * int x) x"
        proof (intro allI impI)
          fix x assume x: "x < sects" "lst ! x \<noteq> 360" "lst ! x \<notin> set dir_sectors"
          have m: "lst ! x \<in> set lst" using x(1) A(1) by simp
          with A(3) have r: "0 < lst ! x" "lst ! x < disk_size st1" by auto
          then have i1: "in_image st1 (lst ! x)" by (rule valid_image_in_image[OF v1])
          with i2 have i2': "in_image st2 (lst ! x)" by blast
          have i3': "in_image st3 (lst ! x)"
            using r f3 f2 by (intro valid_image_in_image[OF v3]) simp_all
          have "lst ! x \<noteq> 1024" using r ds1 by simp
          with o4 i3' x(2) have "sector_at st4 (lst ! x) = sector_at st3 (lst ! x)" by blast
          also have "\<dots> = sector_at st2 (lst ! x)" using o3 i2' x(3) by blast
          finally show "sector_at st4 (lst ! x)
            = data_sector buf (lst @ replicate (1024 - length lst) 0) sects k
                (int (length content) - 125 * int x) x"
            using d2 x(1) by simp
        qed
        have fr: "\<forall>s. in_image st1 s \<longrightarrow> s \<notin> set lst \<longrightarrow> s \<noteq> 360 \<longrightarrow> s \<noteq> 1024 \<longrightarrow> s \<notin> set dir_sectors
          \<longrightarrow> sector_at st4 s = sector_at st1 s"
        proof (intro allI impI)
          fix s assume s: "in_image st1 s" "s \<notin> set lst" "s \<noteq> 360" "s \<noteq> 1024" "s \<notin> set dir_sectors"
          have i2': "in_image st2 s" using i2 s(1) by blast
          have "length (disk st3) = length (disk st2)" using v3 v2 f3 by (auto simp add: valid_image_def)
          then have i3': "in_image st3 s" using i2' by (simp add: in_image_def)
          show "sector_at st4 s = sector_at st1 s"
            using o4 i3' s o3 i2' o2 by simp
        qed
        have c4: "cvt_ending st4 = cvt_ending st" using f4 f3 f2 c1 by simp
        have d4: "disk_size st4 = disk_size st1" using f4 f3 f2 by simp
        show thesis
          using rm fin v1 gb lb k fe al' v4 c4 ek ej dat fr d4
          unfolding first_def
          by (intro ok[of r st1 bitmap k bitmap' lst]) simp_all
      qed
    qed
  qed
qed

lemma put_file_Some:
  "rm st u nm True = Some x \<Longrightarrow> \<exists>y. put_file st u content nm = Some y"
  by (cases x) (auto simp add: put_file_def Let_def split: sum.splits prod.splits)

lemma is_free_take_eq:
  assumes "take n b1 = take n b2" "y < 8 * n"
  shows "is_free b1 y = is_free b2 y"
proof -
  have "y div 8 < n" using assms(2) by simp
  then have "b1 ! (y div 8) = take n b1 ! (y div 8)" "b2 ! (y div 8) = take n b2 ! (y div 8)"
    by simp_all
  with assms(1) show ?thesis by (simp add: is_free_def)
qed

lemma is_free_foldl_free:
  "\<forall>x\<in>set lst. x < 8 * length bm \<Longrightarrow>
   is_free (foldl (\<lambda>b x. mark_space b x False) bm lst) s = (is_free bm s \<or> s \<in> set lst)"
proof (induction lst arbitrary: bm)
  case Nil
  then show ?case by simp
next
  case (Cons a lst)
  have "\<forall>x\<in>set lst. x < 8 * length (mark_space bm a False)" using Cons.prems by simp
  from Cons.IH[OF this] Cons.prems is_free_mark_free[of a bm s] show ?case by auto
qed

lemma del_file_loop_chain:
  assumes "del_file_loop st u bitmap s = Some y"
  shows "(\<forall>e. y = Inl e \<longrightarrow> e = InvalidSectorZero \<or> e = OutOfBounds)
       \<and> (\<forall>b. y = Inr b \<longrightarrow>
            (\<exists>lst. is_chain st u s lst \<and> (\<forall>x\<in>set lst. x < 1024)
                \<and> b = foldl (\<lambda>b x. mark_space b x False) bitmap lst))"
proof (rule del_file_loop.raw_induct[where
        P = "\<lambda>st u bitmap s y. (\<forall>e. y = Inl e \<longrightarrow> e = InvalidSectorZero \<or> e = OutOfBounds)
       \<and> (\<forall>b. y = Inr b \<longrightarrow>
            (\<exists>lst. is_chain st u s lst \<and> (\<forall>x\<in>set lst. x < 1024)
                \<and> b = foldl (\<lambda>b x. mark_space b x False) bitmap lst))", OF _ assms])
  fix f :: "state \<Rightarrow> sector \<Rightarrow> u8 list \<Rightarrow> nat \<Rightarrow> (error + u8 list) option"
    and st0 u0 bm0 s0 y0
  assume IH: "\<And>st1 u1 bm1 s1 y1. f st1 u1 bm1 s1 = Some y1 \<Longrightarrow>
        (\<forall>e. y1 = Inl e \<longrightarrow> e = InvalidSectorZero \<or> e = OutOfBounds)
       \<and> (\<forall>b. y1 = Inr b \<longrightarrow>
            (\<exists>lst. is_chain st1 u1 s1 lst \<and> (\<forall>x\<in>set lst. x < 1024)
                \<and> b = foldl (\<lambda>b x. mark_space b x False) bm1 lst))"
    and step: "(case getsect st0 u0 s0 of
          Inl e \<Rightarrow> Some (Inl e)
        | Inr buf \<Rightarrow>
            let next = unat (buf ! 126) + unat (3 AND buf ! 125) * 256
            in if 128 \<le> s0 div 8 then Some (Inl OutOfBounds)
               else let bitmap' = mark_space bm0 s0 False
                    in if next \<noteq> 0 then f st0 u0 bitmap' next else Some (Inr bitmap')) = Some y0"
  show "(\<forall>e. y0 = Inl e \<longrightarrow> e = InvalidSectorZero \<or> e = OutOfBounds)
       \<and> (\<forall>b. y0 = Inr b \<longrightarrow>
            (\<exists>lst. is_chain st0 u0 s0 lst \<and> (\<forall>x\<in>set lst. x < 1024)
                \<and> b = foldl (\<lambda>b x. mark_space b x False) bm0 lst))"
  proof (cases "getsect st0 u0 s0")
    case (Inl e)
    then have "e = InvalidSectorZero" by (auto simp add: getsect_def split: if_splits)
    with step Inl show ?thesis by auto
  next
    case (Inr buf)
    show ?thesis
    proof (cases "128 \<le> s0 div 8")
      case True
      with step Inr show ?thesis by (auto simp add: Let_def)
    next
      case False
      then have s0: "s0 < 1024" by simp
      show ?thesis
      proof (cases "sector_next buf = 0")
        case True
        with step Inr False have y: "y0 = Inr (mark_space bm0 s0 False)"
          by (auto simp add: Let_def sector_next_def)
        have "is_chain st0 u0 s0 [s0]" using Inr True by simp
        moreover have "mark_space bm0 s0 False = foldl (\<lambda>b x. mark_space b x False) bm0 [s0]"
          by simp
        moreover have "\<forall>x\<in>set [s0]. x < 1024" using s0 by simp
        ultimately show ?thesis unfolding y by blast
      next
        case nz: False
        with step Inr False
        have "f st0 u0 (mark_space bm0 s0 False) (sector_next buf) = Some y0"
          by (simp add: Let_def sector_next_def)
        note H = IH[OF this]
        show ?thesis
        proof (intro conjI allI impI)
          fix e assume "y0 = Inl e"
          with H show "e = InvalidSectorZero \<or> e = OutOfBounds" by simp
        next
          fix b assume "y0 = Inr b"
          with H obtain lst where l: "is_chain st0 u0 (sector_next buf) lst"
            "\<forall>x\<in>set lst. x < 1024"
            "b = foldl (\<lambda>b x. mark_space b x False) (mark_space bm0 s0 False) lst"
            by blast
          have "is_chain st0 u0 s0 (s0 # lst)" using Inr nz l(1) by simp
          moreover have "\<forall>x\<in>set (s0 # lst). x < 1024" using s0 l(2) by simp
          moreover have "b = foldl (\<lambda>b x. mark_space b x False) bm0 (s0 # lst)"
            using l(3) by simp
          ultimately show "\<exists>lst. is_chain st0 u0 s0 lst \<and> (\<forall>x\<in>set lst. x < 1024)
                \<and> b = foldl (\<lambda>b x. mark_space b x False) bm0 lst"
            by blast
        qed
      qed
    qed
  qed
qed

lemma getbitmap_same_vtoc:
  assumes "valid_image st" "valid_image st2" "length u = 128" "disk_size st2 = disk_size st"
    and "sector_at st2 360 = sector_at st 360"
    and "disk_size st = 1024 \<Longrightarrow> sector_at st2 1024 = sector_at st 1024"
  shows "getbitmap st2 u bm chk = getbitmap st u bm chk"
  using getbitmap_in_image[OF valid_image_vtoc(1)[OF assms(1)] assms(3), of bm chk]
    getbitmap_in_image[OF valid_image_vtoc(1)[OF assms(2)] assms(3), of bm chk]
    valid_image_vtoc(2)[OF assms(1)] valid_image_vtoc(2)[OF assms(2)] assms(4,5,6)
  by (cases "disk_size st = 1024") simp_all

text \<open>What \<^verbatim>\<open>rm\<close> does when it finds the name.\<close>

lemma rm_found:
  assumes "valid_image st" "length u = 128"
    and fnd: "List.find (slot_matches st nm) [0..<64] = Some k"
    and rm: "rm st u nm ig = Some (r, st')"
  defines "stA \<equiv> poke st (361 + k div 8) ((sector_at st (361 + k div 8))[16 * (k mod 8) := 0x80])"
  shows "r = Inl InvalidSectorZero \<or> r = Inl OutOfBounds \<or> r = Inr ()"
    and "r \<noteq> Inr () \<Longrightarrow> st' = stA"
    and "r = Inr () \<Longrightarrow>
          \<exists>lst bm bm'. is_chain stA u (entry_start (slot_entry st k)) lst
            \<and> getbitmap st u u False = Inr (bm, [])
            \<and> getbitmap st' u u False = Inr (bm', [])
            \<and> (\<forall>s < disk_size st. is_free bm' s = (is_free bm s \<or> s \<in> set lst))"
proof -
  define x where "x = 361 + k div 8"
  have k: "k < 64" using fnd by (auto simp add: find_Some_iff)
  have di: "dir_in_image st" using assms(1) by (rule valid_image_dir)
  have ix: "in_image st x" unfolding x_def using di k by (rule dir_in_image_slot)
  have lx: "length ((sector_at st x)[16 * (k mod 8) := 0x80]) = 128"
    using length_sector_at[OF ix] by simp
  have sA: "stA = poke st x ((sector_at st x)[16 * (k mod 8) := 0x80])"
    by (simp add: stA_def x_def)
  have ff: "find_file st u nm ig = (Inr (entry_start (slot_entry st k)),
               if ig then stA else st)"
    using find_file_find[OF di assms(2), of nm ig] fnd by (simp add: stA_def)
  have ffT: "find_file st u nm True = (Inr (entry_start (slot_entry st k)), stA)"
    using find_file_find[OF di assms(2), of nm True] fnd by (simp add: stA_def)
  have vA: "valid_image stA" unfolding sA using assms(1) ix lx by (rule valid_image_poke)
  have dA: "disk_size stA = disk_size st" by (simp add: stA_def)
  have xd: "x \<in> set dir_sectors" unfolding x_def using k by (rule dir_sector_pos)
  have xn: "x \<noteq> 360" "x \<noteq> 1024" using dir_sector_not_vtoc[OF k] by (simp_all add: x_def)
  have oA: "sector_at stA s = sector_at st s" if "in_image st s" "s \<noteq> x" for s
    unfolding sA using lx that by (intro poke_other) (auto simp add: x_def)
  have g0: "getbitmap stA u u False = getbitmap st u u False"
    using vA assms(2) dA
  proof (rule getbitmap_same_vtoc[OF assms(1)])
    show "sector_at stA 360 = sector_at st 360"
      using valid_image_vtoc(1)[OF assms(1)] xn by (intro oA) simp_all
    show "disk_size st = 1024 \<Longrightarrow> sector_at stA 1024 = sector_at st 1024"
      using valid_image_vtoc(2)[OF assms(1)] xn by (intro oA) simp_all
  qed
  from getbitmap_valid[OF vA assms(2) assms(2)] obtain bitmap where
    gb: "getbitmap stA u u False = Inr (bitmap, [])" and lb: "length bitmap = 128" by blast
  have dl: "del_file stA u (entry_start (slot_entry st k)) = Some (r, st')"
    using rm ffT by (simp add: rm_def)
  obtain y where y: "del_file_loop stA u bitmap (entry_start (slot_entry st k)) = Some y"
    using dl gb by (cases "del_file_loop stA u bitmap (entry_start (slot_entry st k))")
      (auto simp add: del_file_def)
  note C = del_file_loop_chain[OF y]
  have all: "(r = Inl InvalidSectorZero \<or> r = Inl OutOfBounds \<or> r = Inr ())
     \<and> (r \<noteq> Inr () \<longrightarrow> st' = stA)
     \<and> (r = Inr () \<longrightarrow> (\<exists>lst bm bm'. is_chain stA u (entry_start (slot_entry st k)) lst
            \<and> getbitmap st u u False = Inr (bm, [])
            \<and> getbitmap st' u u False = Inr (bm', [])
            \<and> (\<forall>s < disk_size st. is_free bm' s = (is_free bm s \<or> s \<in> set lst))))"
  proof (cases y)
    case (Inl e)
    with dl gb y have "r = Inl e" "st' = stA" by (simp_all add: del_file_def)
    with C Inl show ?thesis by auto
  next
    case (Inr bmL)
    with C obtain lst where ch: "is_chain stA u (entry_start (slot_entry st k)) lst"
      and bd: "\<forall>x\<in>set lst. x < 1024"
      and bL: "bmL = foldl (\<lambda>b x. mark_space b x False) bitmap lst" by blast
    have lL: "length bmL = 128" unfolding bL using lb by (simp add: length_foldl_mark)
    from dl gb y Inr have pb: "putbitmap stA u bmL = (r, st')" by (simp add: del_file_def)
    from putbitmap_valid[OF vA assms(2) lL] pb have r: "r = Inr ()" and v': "valid_image st'"
      and d': "disk_size st' = disk_size stA"
      and t1: "take 90 (drop 10 (sector_at st' 360)) = take 90 bmL"
      and t2: "disk_size stA = 1024 \<longrightarrow> take 38 (drop 84 (sector_at st' 1024)) = drop 90 bmL"
      by auto
    from getbitmap_valid[OF v' assms(2) assms(2)] obtain bm' where
      g': "getbitmap st' u u False = Inr (bm', [])" and l': "length bm' = 128"
      and u1: "take 90 bm' = take 90 (drop 10 (sector_at st' 360))"
      and u2: "disk_size st' = 1024 \<longrightarrow> drop 90 bm' = take 38 (drop 84 (sector_at st' 1024))"
      by blast
    have fL: "is_free bmL s = (is_free bitmap s \<or> s \<in> set lst)" for s
      unfolding bL using bd lb by (intro is_free_foldl_free) simp
    have eq: "is_free bm' s = is_free bmL s" if "s < disk_size st" for s
    proof (cases "disk_size st = 1024")
      case True
      with t2 u2 d' dA have "drop 90 bm' = drop 90 bmL" by simp
      moreover from t1 u1 have "take 90 bm' = take 90 bmL" by simp
      ultimately have "take 90 bm' @ drop 90 bm' = take 90 bmL @ drop 90 bmL" by simp
      then show ?thesis by simp
    next
      case False
      with assms(1) have "disk_size st = 720" by (auto simp add: valid_image_def)
      with that have "s < 8 * 90" by simp
      moreover from t1 u1 have "take 90 bm' = take 90 bmL" by simp
      ultimately show ?thesis by (intro is_free_take_eq[of 90]) simp_all
    qed
    from ch gb g0 g' eq fL r show ?thesis by auto
  qed
  from all show "r = Inl InvalidSectorZero \<or> r = Inl OutOfBounds \<or> r = Inr ()" by simp
  from all show "r \<noteq> Inr () \<Longrightarrow> st' = stA" by simp
  from all show "r = Inr () \<Longrightarrow>
          \<exists>lst bm bm'. is_chain stA u (entry_start (slot_entry st k)) lst
            \<and> getbitmap st u u False = Inr (bm, [])
            \<and> getbitmap st' u u False = Inr (bm', [])
            \<and> (\<forall>s < disk_size st. is_free bm' s = (is_free bm s \<or> s \<in> set lst))"
    by simp
qed

lemma put_file_fatal:
  "rm st u nm True = Some (r, st1) \<Longrightarrow> r = Inl InvalidSectorZero \<or> r = Inl OutOfBounds \<Longrightarrow>
   put_file st u content nm = Some (r, st1)"
  by (simp add: put_file_def Let_def)

lemma write_file_error:
  assumes "valid_image st" "length bitmap = 128" "length buf = 125 * sects"
    and "write_file st bitmap buf sects fno sz = (Inl e, bm', st')"
  shows "e = InsufficientSpace" "st' = st"
    "length (free_sectors (disk_size st) bitmap) < sects"
proof -
  obtain r b l where al: "alloc_space (disk_size st) bitmap sects = (r, b, l)"
    by (cases "alloc_space (disk_size st) bitmap sects") auto
  have ds: "disk_size st \<le> 8 * length bitmap"
    using valid_image_disk_size[OF assms(1)] assms(2) by simp
  have "e = InsufficientSpace \<and> st' = st \<and> length (free_sectors (disk_size st) bitmap) < sects"
  proof (cases r)
    case (Inl e')
    with al assms(4) have "e = e'" "st' = st" by (simp_all add: write_file_def)
    moreover from al Inl have "e' = InsufficientSpace" by (auto dest: alloc_space_error)
    moreover from al Inl alloc_space_result[OF ds, of sects]
    have "length (free_sectors (disk_size st) bitmap) < sects" by (auto split: if_splits)
    ultimately show ?thesis by simp
  next
    case (Inr v)
    with al have "alloc_space (disk_size st) bitmap sects = (Inr (), b, l)" by simp
    from write_file_effect[OF assms(1,2,3) this, of fno sz] assms(4) show ?thesis by auto
  qed
  then show "e = InsufficientSpace" "st' = st"
    "length (free_sectors (disk_size st) bitmap) < sects" by simp_all
qed

lemma del_file_error:
  assumes "valid_image st" "length u = 128" "del_file st u sector = Some (Inl e, s)"
  shows "s = st" "e = InvalidSectorZero \<or> e = OutOfBounds"
proof -
  from getbitmap_valid[OF assms(1,2,2)] obtain bitmap where
    gb: "getbitmap st u u False = Inr (bitmap, [])" and lb: "length bitmap = 128" by blast
  obtain y where y: "del_file_loop st u bitmap sector = Some y"
    using assms(3) gb by (cases "del_file_loop st u bitmap sector") (auto simp add: del_file_def)
  note C = del_file_loop_chain[OF y]
  have "s = st \<and> (e = InvalidSectorZero \<or> e = OutOfBounds)"
  proof (cases y)
    case (Inl e')
    with assms(3) gb y C show ?thesis by (auto simp add: del_file_def)
  next
    case (Inr bmL)
    with C lb have "length bmL = 128" by auto
    from putbitmap_valid[OF assms(1,2) this] assms(3) gb y Inr show ?thesis
      by (auto simp add: del_file_def)
  qed
  then show "s = st" "e = InvalidSectorZero \<or> e = OutOfBounds" by simp_all
qed


lemma valid_blank_sd: "valid_image blank_sd"
  by (simp add: valid_image_def blank_sd_def)

lemma blank_sd_unused: "j < 64 \<Longrightarrow> \<not> slot_in_use blank_sd j"
proof -
  assume j: "j < 64"
  have "in_image blank_sd (361 + j div 8)" using j by (simp add: in_image_blank_sd)
  then have "sector_at blank_sd (361 + j div 8) = replicate 128 0" by (rule sector_at_blank_sd)
  moreover have "16 * (j mod 8) < 128" by simp
  ultimately show ?thesis by (simp add: slot_in_use_def slot_entry_def dirent_at_def)
qed

lemma valid_dir_example: "valid_image dir_example"
  unfolding dir_example_def
  by (rule valid_image_poke[OF valid_blank_sd]) (simp_all add: in_image_blank_sd length_foo_entry)

lemma dir_example_unused:
  assumes "j < 64" "j \<noteq> 0"
  shows "\<not> slot_in_use dir_example j"
proof (cases "j div 8 = 0")
  case True
  then have j8: "j < 8" by simp
  with assms(2) have r: "16 \<le> 16 * j" "16 * j - 16 < 112" by simp_all
  have "(foo_entry @ replicate 112 0) ! (16 * j) = replicate 112 (0::u8) ! (16 * j - 16)"
    using r(1) by (simp add: nth_append length_foo_entry)
  also have "\<dots> = 0" using r(2) by (rule nth_replicate)
  finally have "flag (dirent_at (foo_entry @ replicate 112 0) (16 * j)) = 0"
    by (simp add: dirent_at_def)
  then show ?thesis using j8
    by (simp add: slot_in_use_def slot_entry_def dir_example_361)
next
  case False
  then have "361 + j div 8 \<noteq> 361" by simp
  moreover have "361 + j div 8 \<le> 720" using assms(1) by simp
  ultimately have "sector_at dir_example (361 + j div 8) = replicate 128 0"
    by (intro dir_example_other) simp_all
  moreover have "16 * (j mod 8) < 128" by simp
  ultimately show ?thesis by (simp add: slot_in_use_def slot_entry_def dirent_at_def)
qed

lemma length_filter_eq_le_1: "distinct xs \<Longrightarrow> length (filter (\<lambda>y. y = a) xs) \<le> 1"
  by (induction xs) (auto simp add: filter_empty_conv)

text \<open>Deleting the one file of the example frees its one sector and nothing else.\<close>

lemma rm_dir_example:
  "\<exists>st1 bitmap. rm dir_example (replicate 128 0) (bytes ''foo.txt'') True = Some (Inr (), st1)
      \<and> valid_image st1 \<and> disk_size st1 = 720
      \<and> getbitmap st1 (replicate 128 0) (replicate 128 0) False = Inr (bitmap, [])
      \<and> length (free_sectors 720 bitmap) \<le> 1"
proof -
  define u :: sector where "u = replicate 128 0"
  define stA where "stA = poke dir_example 361 ((sector_at dir_example 361)[16 * (0 mod 8) := 0x80])"
  have lu: "length u = 128" by (simp add: u_def)
  have ff: "find_file dir_example u (bytes ''foo.txt'') True = (Inr 4, stA)"
    using find_file_find[OF dir_example_dir lu, of "bytes ''foo.txt''" True]
    by (simp add: dir_example_find dir_example_slot0 entry_start_def stA_def)
  have vA: "valid_image stA"
    unfolding stA_def
    by (rule valid_image_poke[OF valid_dir_example])
       (simp_all add: dir_example_image dir_example_361 length_foo_entry)
  have dsA: "disk_size stA = 720" by (simp add: stA_def dir_example_def)
  have oA: "sector_at stA s = replicate 128 0" if "0 < s" "s \<le> 720" "s \<noteq> 361" for s
  proof -
    have "sector_at stA s = sector_at dir_example s"
      unfolding stA_def using that
      by (intro poke_other) (simp_all add: dir_example_image dir_example_361 length_foo_entry)
    then show ?thesis using dir_example_other[OF that] by simp
  qed
  from getbitmap_valid[OF vA lu lu] obtain bmA where
    gA: "getbitmap stA u u False = Inr (bmA, [])" and lA: "length bmA = 128"
    and tA: "take 90 bmA = take 90 (drop 10 (sector_at stA 360))" by blast
  have zA: "take 90 bmA = replicate 90 0" using tA oA[of 360] by simp
  have g4: "getsect stA u 4 = Inr (replicate 128 0)"
    using getsect_in_image[OF valid_image_in_image[OF vA, of 4] lu] oA[of 4] dsA by simp
  have dl: "del_file_loop stA u bmA 4 = Some (Inr (mark_space bmA 4 False))"
    by (subst del_file_loop.simps) (simp add: g4 Let_def)
  have lm: "length (mark_space bmA 4 False) = 128" using lA by simp
  from putbitmap_valid[OF vA lu lm] obtain stB where
    pB: "putbitmap stA u (mark_space bmA 4 False) = (Inr (), stB)" and vB: "valid_image stB"
    and dsB: "disk_size stB = disk_size stA"
    and tB: "take 90 (drop 10 (sector_at stB 360)) = take 90 (mark_space bmA 4 False)" by blast
  have rmB: "rm dir_example u (bytes ''foo.txt'') True = Some (Inr (), stB)"
    using ff gA dl pB by (simp add: rm_def del_file_def)
  from getbitmap_valid[OF vB lu lu] obtain bmB where
    gB: "getbitmap stB u u False = Inr (bmB, [])"
    and tB': "take 90 bmB = take 90 (drop 10 (sector_at stB 360))" by blast
  have fr: "is_free bmB y = (y = 4)" if "y < 720" for y
  proof -
    have "is_free bmB y = is_free (mark_space bmA 4 False) y"
      using tB tB' that by (intro is_free_take_eq[of 90]) simp_all
    also have "\<dots> = (is_free bmA y \<or> y = 4)" using lA by (intro is_free_mark_free) simp
    also have "is_free bmA y = is_free (replicate 90 0) y"
      using zA that by (intro is_free_take_eq[of 90]) simp_all
    also have "\<dots> = False" using that by (simp add: is_free_def)
    finally show ?thesis by simp
  qed
  have "free_sectors 720 bmB = filter (\<lambda>y. y = 4) [1..<720]"
    unfolding free_sectors_def by (rule filter_cong) (simp_all add: fr)
  then have "length (free_sectors 720 bmB) \<le> 1"
    using length_filter_eq_le_1[of "[1..<720]" 4] by simp
  with rmB vB dsB dsA gB show ?thesis unfolding u_def by auto
qed

lemma put_file_dir_example:
  "\<exists>st'. put_file dir_example (replicate 128 0) (replicate 126 0x41) (bytes ''foo.txt'')
           = Some (Inl InsufficientSpace, st')
      \<and> valid_image st' \<and> (\<forall>j<64. \<not> slot_in_use st' j)
      \<and> slot_entry st' 0 = (slot_entry dir_example 0)\<lparr>flag := FLAG_DELETED\<rparr>"
proof -
  define u :: sector where "u = replicate 128 0"
  have lu: "length u = 128" by (simp add: u_def)
  from rm_dir_example obtain st1 bitmap where
        rm: "rm dir_example u (bytes ''foo.txt'') True = Some (Inr (), st1)"
    and v1: "valid_image st1" and ds: "disk_size st1 = 720"
    and gb: "getbitmap st1 u u False = Inr (bitmap, [])"
    and fl: "length (free_sectors 720 bitmap) \<le> 1"
    unfolding u_def by blast
  note R = rm_effect[OF valid_dir_example lu rm]
  have n0: "\<not> slot_in_use st1 0" using R by (simp add: dir_example_find slot_in_use_def)
  from put_file_Some[OF rm] obtain res st' where
    pf: "put_file dir_example u (replicate 126 0x41) (bytes ''foo.txt'') = Some (res, st')" by force
  from valid_dir_example lu pf have "res = Inl InsufficientSpace \<and> st' = st1"
  proof (cases rule: put_file_cases)
    case (fatal r)
    with rm show ?thesis by simp
  next
    case (full r)
    with rm n0 show ?thesis by auto
  next
    case (nospace r bm)
    with rm show ?thesis by simp
  next
    case (ok r st1' bm bm' lst k)
    with rm gb ds have a: "alloc_space 720 bitmap ((length (replicate 126 (0x41::u8)) + 124) div 125)
        = (Inr (), bm', lst)" and l: "length bitmap = 128" by simp_all
    have "720 \<le> 8 * length bitmap" using l by simp
    from alloc_space_success(1,4)[OF this a] have "2 \<le> length (free_sectors 720 bitmap)"
      by simp
    with fl show ?thesis by simp
  qed
  moreover have "\<forall>j<64. \<not> slot_in_use st1 j"
  proof (intro allI impI)
    fix j :: nat assume j: "j < 64"
    show "\<not> slot_in_use st1 j"
    proof (cases "j = 0")
      case True
      with n0 show ?thesis by simp
    next
      case False
      with R j have "slot_entry st1 j = slot_entry dir_example j" by (simp add: dir_example_find)
      with dir_example_unused[OF j False] show ?thesis by (simp add: slot_in_use_def)
    qed
  qed
  moreover have "slot_entry st1 0 = (slot_entry dir_example 0)\<lparr>flag := FLAG_DELETED\<rparr>"
    using R by (simp add: dir_example_find)
  ultimately show ?thesis using pf v1 unfolding u_def by auto
qed

lemma dir_example_chain:
  "is_chain (poke dir_example 361 ((sector_at dir_example 361)[0 := 0x80])) (replicate 128 0) 4 lst
     = (lst = [4])"
proof -
  define u :: sector where "u = replicate 128 0"
  define stA where "stA = poke dir_example 361 ((sector_at dir_example 361)[0 := 0x80])"
  have lu: "length u = 128" by (simp add: u_def)
  have vA: "valid_image stA"
    unfolding stA_def
    by (rule valid_image_poke[OF valid_dir_example])
       (simp_all add: dir_example_image dir_example_361 length_foo_entry)
  have dsA: "disk_size stA = 720" by (simp add: stA_def dir_example_def)
  have "sector_at stA 4 = sector_at dir_example 4"
    unfolding stA_def
    by (intro poke_other) (simp_all add: dir_example_image dir_example_361 length_foo_entry)
  then have s4: "sector_at stA 4 = replicate 128 0" using dir_example_other[of 4] by simp
  have g4: "getsect stA u 4 = Inr (replicate 128 0)"
    using getsect_in_image[OF valid_image_in_image[OF vA, of 4] lu] s4 dsA by simp
  have "is_chain stA u 4 lst = (lst = [4])"
    by (cases lst) (auto simp add: g4 sector_next_def)
  then show ?thesis unfolding stA_def u_def .
qed

lemma blank_sd_no_match: "List.find (slot_matches blank_sd nm) [0..<64] = None"
  by (auto simp add: find_None_iff slot_matches_def blank_sd_unused)

lemma not_free_zeros: "s div 8 < n \<Longrightarrow> \<not> is_free (replicate n 0) s"
  by (simp add: is_free_def)

lemma write_file_blank_sd:
  "write_file blank_sd (replicate 128 0) (replicate 125 0x41) 1 0 1
     = (Inl InsufficientSpace, replicate 128 0, blank_sd)"
proof -
  have "free_sectors 720 (replicate 128 0) = []"
    unfolding free_sectors_def by (auto simp add: filter_empty_conv not_free_zeros)
  then have "alloc_space 720 (replicate 128 0) 1 = (Inl InsufficientSpace, replicate 128 0, [])"
    using alloc_space_result[of 720 "replicate 128 0" 1] by simp
  then show ?thesis by (simp add: write_file_def)
qed

lemma del_file_blank_sd:
  "del_file blank_sd (replicate 128 0) 0 = Some (Inl InvalidSectorZero, blank_sd)"
proof -
  from getbitmap_valid[OF valid_blank_sd, of "replicate 128 0" "replicate 128 0"] obtain bitmap where
    gb: "getbitmap blank_sd (replicate 128 0) (replicate 128 0) False = Inr (bitmap, [])" by auto
  have "del_file_loop blank_sd (replicate 128 0) bitmap 0 = Some (Inl InvalidSectorZero)"
    by (subst del_file_loop.simps) (simp add: getsect_def)
  with gb show ?thesis by (simp add: del_file_def)
qed



subsection \<open>Reading back what was put\<close>

text \<open>
  \<^verbatim>\<open>read_file\<close> on a chain of \<open>n\<close> sectors that hold \<open>buf\<close>, 125 bytes each, the last
  one with \<open>rem\<close> bytes in use and the link 0.
\<close>

lemma read_file_chain:
  assumes "\<not> cvt_ending st" "length u = 128" "length buf = 125 * n" "rem \<le> 125"
    and ch: "\<forall>x < n. in_image st (lst ! x)
          \<and> take 125 (sector_at st (lst ! x)) = take 125 (drop (125 * x) buf)
          \<and> sector_next (sector_at st (lst ! x)) = (if x + 1 = n then 0 else lst ! (x + 1))
          \<and> sector_bytes (sector_at st (lst ! x)) = (if x + 1 = n then rem else 125)
          \<and> (x + 1 < n \<longrightarrow> lst ! (x + 1) \<noteq> 0)"
  shows "i < n \<Longrightarrow>
    read_file st u (lst ! i) out
      = Some (Inr (out @ take (125 * (n - 1 - i) + rem) (drop (125 * i) buf)))"
proof (induction "n - i" arbitrary: i out)
  case 0
  then show ?case by simp
next
  case (Suc m)
  define S where "S = sector_at st (lst ! i)"
  from ch Suc.prems have
        im: "in_image st (lst ! i)"
    and dt: "take 125 S = take 125 (drop (125 * i) buf)"
    and nx: "sector_next S = (if i + 1 = n then 0 else lst ! (i + 1))"
    and bt: "sector_bytes S = (if i + 1 = n then rem else 125)"
    and nz: "i + 1 < n \<longrightarrow> lst ! (i + 1) \<noteq> 0"
    unfolding S_def by blast+
  have g: "getsect st u (lst ! i) = Inr S"
    unfolding S_def using im assms(2) by (rule getsect_in_image)
  have unf: "read_file st u (lst ! i) out =
      (if sector_bytes S > 128 then Some (Inl OutOfBounds)
       else if sector_next S \<noteq> 0 then read_file st u (sector_next S) (out @ take (sector_bytes S) S)
       else Some (Inr (out @ take (sector_bytes S) S)))"
    by (subst read_file.simps)
       (simp add: g assms(1) Let_def sector_next_def sector_bytes_def del: One_nat_def)
  show ?case
  proof (cases "i + 1 = n")
    case True
    have "take rem S = take rem (take 125 S)" using assms(4) by (simp add: min_def)
    also have "\<dots> = take rem (drop (125 * i) buf)" using dt assms(4) by (simp add: min_def)
    finally have "take rem S = take rem (drop (125 * i) buf)" .
    moreover have "n - 1 - i = 0" using True by simp
    ultimately show ?thesis using unf True nx bt assms(4) by simp
  next
    case False
    with Suc.prems have lt: "i + 1 < n" by simp
    with nz have nz': "lst ! (i + 1) \<noteq> 0" by simp
    have m: "m = n - (i + 1)" using Suc.hyps(2) by simp
    have r1: "read_file st u (lst ! i) out
        = read_file st u (lst ! (i + 1)) (out @ take 125 (drop (125 * i) buf))"
      using unf False nx bt nz' dt by simp
    have r2: "read_file st u (lst ! (i + 1)) (out @ take 125 (drop (125 * i) buf))
        = Some (Inr ((out @ take 125 (drop (125 * i) buf))
          @ take (125 * (n - 1 - (i + 1)) + rem) (drop (125 * (i + 1)) buf)))"
      using Suc.hyps(1)[OF m lt] .
    have e: "125 * (n - 1 - i) + rem = 125 + (125 * (n - 1 - (i + 1)) + rem)"
      using lt by simp
    have r3: "take 125 (drop (125 * i) buf)
          @ take (125 * (n - 1 - (i + 1)) + rem) (drop (125 * (i + 1)) buf)
        = take (125 * (n - 1 - i) + rem) (drop (125 * i) buf)"
      unfolding e by (simp add: take_add add.commute)
    show ?thesis unfolding r1 r2 using r3 by simp
  qed
qed

lemma data_sector_facts:
  assumes "x < sects" "length buf = 125 * sects" "fno < 64" "sects = (n + 124) div 125"
    and "length lst = sects" "\<forall>y\<in>set lst. y < 1024"
  defines "S \<equiv> data_sector buf (lst @ replicate (1024 - length lst) 0) sects fno
                  (int n - 125 * int x) x"
  shows "take 125 S = take 125 (drop (125 * x) buf)"
    and "sector_file_no S = fno"
    and "sector_next S = (if x + 1 = sects then 0 else lst ! (x + 1))"
    and "sector_bytes S = (if x + 1 = sects then n - 125 * x else 125)"
proof -
  define list where "list = lst @ replicate (1024 - length lst) 0"
  have lb: "125 * (x + 1) \<le> length buf" using assms(1,2) by simp
  have le: "list ! (x + 1) = lst ! (x + 1)" if "x + 1 \<noteq> sects"
    using that assms(1,5) by (simp add: list_def nth_append)
  have nx: "list ! (x + 1) < 1024" if "x + 1 \<noteq> sects"
  proof -
    from that assms(1,5) have "lst ! (x + 1) \<in> set lst" by simp
    with assms(6) le[OF that] show ?thesis by simp
  qed
  have last: "unat (word_of_int (int n - 125 * int x) :: u8) = n - 125 * x" if "x + 1 = sects"
  proof -
    have "125 * sects \<le> n + 124" "n + 124 < 125 * sects + 125"
      using assms(4) by simp_all
    with that have b: "125 * x < n" "n \<le> 125 * x + 125" by simp_all
    then have "0 \<le> int n - 125 * int x" "int n - 125 * int x < 256" by linarith+
    then have "unat (word_of_int (int n - 125 * int x) :: u8) = nat (int n - 125 * int x)"
      by (rule unat_word_of_int_small)
    also have "\<dots> = n - 125 * x" by simp
    finally show ?thesis .
  qed
  show "take 125 S = take 125 (drop (125 * x) buf)"
    unfolding S_def by (rule nth_data_sector(1)[OF lb])
  show "sector_file_no S = fno"
    unfolding S_def list_def[symmetric] using data_sector_decode(2)[OF lb assms(3) nx] by simp
  show "sector_next S = (if x + 1 = sects then 0 else lst ! (x + 1))"
    unfolding S_def list_def[symmetric] using data_sector_decode(1)[OF lb assms(3) nx] le by simp
  show "sector_bytes S = (if x + 1 = sects then n - 125 * x else 125)"
    unfolding S_def list_def[symmetric] using data_sector_decode(3)[OF lb assms(3) nx] last by simp
qed

lemma entry_start_of_nat:
  "first < 65536 \<Longrightarrow>
   entry_start \<lparr>flag = f, count_lo = c1, count_hi = c2,
                start_lo = of_nat first, start_hi = of_nat (first div 256),
                name = a, suffix = b\<rparr> = first"
  by (simp add: entry_start_def unat_of_nat)

text \<open>
  The round trip. It holds for every buffer that is not empty.
\<close>

lemma put_file_read_file_roundtrip:
  assumes "valid_image st" "length u = 128" "\<not> cvt_ending st" "content \<noteq> []"
    and rm: "rm st u nm True = Some (r, st1)"
    and gb: "getbitmap st1 u u False = Inr (bitmap, msgs)"
    and reserved: "\<forall>s\<in>set (360 # dir_sectors). \<not> is_free bitmap s"
    and pf: "put_file st u content nm = Some (Inr (), st')"
  shows "\<exists>k<64. slot_in_use st' k
      \<and> name (slot_entry st' k) = fst (putname nm) \<and> suffix (slot_entry st' k) = snd (putname nm)
      \<and> read_file st' u (entry_start (slot_entry st' k)) [] = Some (Inr content)"
  using assms(1,2) pf
proof (cases rule: put_file_cases)
  case (ok r' st1' bitmap0 bitmap' lst k)
  define sects where "sects = (length content + 124) div 125"
  define buf where "buf = content @ replicate (125 * sects - length content) 0"
  define rem where "rem = length content - 125 * (sects - 1)"
  note ok' = ok[folded sects_def, folded buf_def]
  from ok'(1) rm have st1: "st1' = st1" by simp
  with ok'(4) gb have bm: "bitmap0 = bitmap" by simp
  have pos: "0 < sects"
  proof -
    have "0 < length content" using assms(4) by simp
    then have "125 \<le> length content + 124" by linarith
    then show ?thesis unfolding sects_def by (simp add: div_greater_zero_iff)
  qed
  have ds: "disk_size st1 \<le> 8 * length bitmap"
    using valid_image_disk_size[OF ok'(3)] ok'(5) st1 bm by simp
  have al: "alloc_space (disk_size st1) bitmap sects = (Inr (), bitmap', lst)"
    using ok'(8) st1 bm by simp
  note A = alloc_space_success[OF ds al]
  have d1024: "disk_size st1 \<le> 1024" using valid_image_disk_size[OF ok'(3)] st1 by simp
  have small: "\<forall>y\<in>set lst. y < 1024" using A(3) d1024 by auto
  have lbuf: "length buf = 125 * sects"
  proof -
    have "length content \<le> 125 * sects" unfolding sects_def by presburger
    then show ?thesis by (simp add: buf_def)
  qed
  have rem_le: "rem \<le> 125" and total: "125 * (sects - 1) + rem = length content"
  proof -
    have "125 * sects \<le> length content + 124" "length content + 124 < 125 * sects + 125"
      unfolding sects_def by simp_all
    with pos show "rem \<le> 125" "125 * (sects - 1) + rem = length content"
      unfolding rem_def by (cases sects; simp)+
  qed
  have ch: "\<forall>x < sects. in_image st' (lst ! x)
          \<and> take 125 (sector_at st' (lst ! x)) = take 125 (drop (125 * x) buf)
          \<and> sector_next (sector_at st' (lst ! x)) = (if x + 1 = sects then 0 else lst ! (x + 1))
          \<and> sector_bytes (sector_at st' (lst ! x)) = (if x + 1 = sects then rem else 125)
          \<and> (x + 1 < sects \<longrightarrow> lst ! (x + 1) \<noteq> 0)"
  proof (intro allI impI)
    fix x assume x: "x < sects"
    have m: "lst ! x \<in> set lst" using x A(1) by simp
    with A(3) have r: "0 < lst ! x" "lst ! x < disk_size st1" "is_free bitmap (lst ! x)" by auto
    from r(3) reserved have nr: "lst ! x \<noteq> 360" "lst ! x \<notin> set dir_sectors" by auto
    have im: "in_image st' (lst ! x)"
      using r ok'(15) st1 by (intro valid_image_in_image[OF ok'(9)]) simp_all
    have S: "sector_at st' (lst ! x)
        = data_sector buf (lst @ replicate (1024 - length lst) 0) sects k
            (int (length content) - 125 * int x) x"
      using ok'(13) x nr by blast
    note F = data_sector_facts[OF x lbuf ok'(6) sects_def A(1) small]
    have nz: "lst ! (x + 1) \<noteq> 0" if "x + 1 < sects"
    proof -
      from that A(1) have "lst ! (x + 1) \<in> set lst" by simp
      with A(3) show ?thesis by auto
    qed
    have "x + 1 = sects \<Longrightarrow> length content - 125 * x = rem" by (auto simp add: rem_def)
    with im S F nz
    show "in_image st' (lst ! x)
          \<and> take 125 (sector_at st' (lst ! x)) = take 125 (drop (125 * x) buf)
          \<and> sector_next (sector_at st' (lst ! x)) = (if x + 1 = sects then 0 else lst ! (x + 1))
          \<and> sector_bytes (sector_at st' (lst ! x)) = (if x + 1 = sects then rem else 125)
          \<and> (x + 1 < sects \<longrightarrow> lst ! (x + 1) \<noteq> 0)"
      by simp
  qed
  have nc: "\<not> cvt_ending st'" using ok'(10) assms(3) by simp
  have "read_file st' u (lst ! 0) []
      = Some (Inr ([] @ take (125 * (sects - 1 - 0) + rem) (drop (125 * 0) buf)))"
    using nc assms(2) lbuf rem_le ch pos by (rule read_file_chain)
  also have "take (125 * (sects - 1 - 0) + rem) (drop (125 * 0) buf) = content"
    using total by (simp add: buf_def)
  finally have rd: "read_file st' u (lst ! 0) [] = Some (Inr content)" by simp
  have "lst ! 0 \<in> set lst" using pos A(1) by simp
  with small have "lst ! 0 < 65536" by fastforce
  then have es: "entry_start (slot_entry st' k) = lst ! 0"
    using ok'(11) pos entry_start_of_nat by simp
  have "slot_in_use st' k" using ok'(11) by (simp add: slot_in_use_def)
  with rd es ok'(6,11) show ?thesis by auto
qed auto

lemma put_file_succeeds:
  assumes "valid_image st" "length u = 128"
    and none: "List.find (slot_matches st nm) [0..<64] = None"
    and gb: "getbitmap st u u False = Inr (bitmap, msgs)"
    and room: "(length content + 124) div 125 \<le> length (free_sectors (disk_size st) bitmap)"
    and slot: "k < 64" "\<not> slot_in_use st k"
  shows "rm st u nm True = Some (Inl NotFound, st)"
    and "\<exists>st'. put_file st u content nm = Some (Inr (), st')"
proof -
  have "find_file st u nm True = (Inl NotFound, st)"
    using find_file_find[OF valid_image_dir[OF assms(1)] assms(2), of nm True] none by simp
  then show rm: "rm st u nm True = Some (Inl NotFound, st)" by (simp add: rm_def)
  from put_file_Some[OF rm] obtain res st' where pf: "put_file st u content nm = Some (res, st')"
    by fastforce
  from assms(1,2) pf have "res = Inr ()"
  proof (cases rule: put_file_cases)
    case (fatal r)
    with rm show ?thesis by auto
  next
    case (full r)
    with rm slot show ?thesis by auto
  next
    case (nospace r bitmap0)
    with rm gb room show ?thesis by auto
  next
    case (ok r st1 bitmap0 bitmap' lst k)
    then show ?thesis by simp
  qed
  with pf show "\<exists>st'. put_file st u content nm = Some (Inr (), st')" by simp
qed

lemma valid_vtoc_example: "valid_image vtoc_example"
  unfolding vtoc_example_def
  by (rule valid_image_poke[OF valid_blank_sd]) (simp_all add: in_image_blank_sd)

lemma vtoc_example_unused: "j < 64 \<Longrightarrow> \<not> slot_in_use vtoc_example j"
proof -
  assume j: "j < 64"
  have i: "in_image blank_sd (361 + j div 8)" using j by (simp add: in_image_blank_sd)
  have "sector_at vtoc_example (361 + j div 8) = sector_at blank_sd (361 + j div 8)"
    unfolding vtoc_example_def using i by (intro poke_other) simp_all
  then have "slot_in_use vtoc_example j = slot_in_use blank_sd j"
    by (simp add: slot_in_use_def slot_entry_def)
  with blank_sd_unused[OF j] show ?thesis by simp
qed

lemma vtoc_example_bitmap:
  "getbitmap vtoc_example (replicate 128 0) (replicate 128 0) False
     = Inr (0x60 # replicate 127 0, [])"
proof -
  have s: "sector_at vtoc_example 360 = replicate 10 0 @ [0x60] @ replicate 117 0"
    unfolding vtoc_example_def by (rule poke_same) simp_all
  have "replicate 127 (0::u8) = replicate 89 0 @ replicate 38 0"
    unfolding replicate_add[symmetric] by simp
  moreover have "disk_size vtoc_example = 720" by (simp add: vtoc_example_def)
  ultimately show ?thesis
    using getbitmap_in_image[OF valid_image_vtoc(1)[OF valid_vtoc_example],
        of "replicate 128 0" "replicate 128 0" False]
    by (simp add: s)
qed

lemma vtoc_example_free:
  "is_free (0x60 # replicate 127 0) s = (s = 1 \<or> s = 2)" if "s < 1024"
proof (cases "s div 8 = 0")
  case True
  then have "s < 8" by simp
  then have "s \<in> {0, 1, 2, 3, 4, 5, 6, 7}" by auto
  then show ?thesis by (auto simp add: is_free_def bit_mask_def)
next
  case False
  then have "0 < s div 8" "s div 8 - 1 < 127" "8 \<le> s" using that by auto
  then show ?thesis by (auto simp add: is_free_def nth_Cons')
qed

lemma vtoc_example_free_sectors: "free_sectors 720 (0x60 # replicate 127 0) = [1, 2]"
proof -
  have a: "[1..<720] = [1..<3] @ [3..<720]"
    using upt_add_eq_append[of 1 3 717] by (simp del: upt_rec_numeral One_nat_def)
  have b: "filter (is_free (0x60 # replicate 127 0)) [3..<720] = []"
    by (auto simp add: filter_empty_conv vtoc_example_free)
  have "[1..<3] = [1, 2::nat]" by code_simp
  then have c: "filter (is_free (0x60 # replicate 127 0)) [1..<3] = [1, 2]"
    by (simp add: vtoc_example_free del: upt_rec_numeral One_nat_def)
  show ?thesis unfolding free_sectors_def a filter_append b c by simp
qed

text \<open>
  An instance: 126 bytes, two sectors, on an image with exactly sectors 1 and 2 free.
\<close>

lemma put_file_read_file_example:
  "\<exists>st' k. put_file vtoc_example (replicate 128 0) (replicate 126 0x41) (bytes ''a'')
              = Some (Inr (), st')
     \<and> k < 64 \<and> slot_in_use st' k
     \<and> read_file st' (replicate 128 0) (entry_start (slot_entry st' k)) []
         = Some (Inr (replicate 126 0x41))"
proof -
  let ?u = "replicate 128 (0::u8)"
  let ?c = "replicate 126 (0x41::u8)"
  have fn: "List.find (slot_matches vtoc_example (bytes ''a'')) [0..<64] = None"
    by (auto simp add: find_None_iff slot_matches_def vtoc_example_unused)
  have ds: "disk_size vtoc_example = 720" by (simp add: vtoc_example_def)
  have room: "(length ?c + 124) div 125 \<le> length (free_sectors (disk_size vtoc_example) (0x60 # replicate 127 0))"
    unfolding ds vtoc_example_free_sectors by simp
  note S = put_file_succeeds[OF valid_vtoc_example _ fn vtoc_example_bitmap room _ vtoc_example_unused[of 0]]
  from S(2) obtain st' where pf: "put_file vtoc_example ?u ?c (bytes ''a'') = Some (Inr (), st')"
    by auto
  have res: "\<forall>s\<in>set (360 # dir_sectors). \<not> is_free (0x60 # replicate 127 0) s"
    by (auto simp add: dir_sectors_def vtoc_example_free)
  have nc: "\<not> cvt_ending vtoc_example" by (simp add: vtoc_example_def)
  from put_file_read_file_roundtrip[OF valid_vtoc_example _ nc _ S(1) vtoc_example_bitmap res pf]
  obtain k where "k < 64" "slot_in_use st' k"
    "read_file st' ?u (entry_start (slot_entry st' k)) [] = Some (Inr ?c)"
    by auto
  with pf show ?thesis by blast
qed

text \<open>
  C1, for a buffer of length 0: whenever \<^verbatim>\<open>put_file\<close> of the empty buffer succeeds on an
  image \<^verbatim>\<open>main\<close> accepts, the directory entry it has written is in use with sector
  count 0 and starting sector 0 (\<^verbatim>\<open>write_file\<close> returns \<^verbatim>\<open>list[0]\<close> of the zeroed
  array), and \<^verbatim>\<open>read_file\<close> from that starting sector ends in \<^verbatim>\<open>getsect\<close>'s
  \<^verbatim>\<open>exit(-1)\<close> for sector 0 instead of delivering the 0 bytes.
\<close>

theorem put_file_empty_then_read_fails:
  assumes "valid_image st" "length u = 128" "put_file st u [] nm = Some (Inr (), st')"
  shows "\<exists>k<64. slot_entry st' k =
            \<lparr>flag = FLAG_IN_USE, count_lo = 0, count_hi = 0, start_lo = 0, start_hi = 0,
             name = fst (putname nm), suffix = snd (putname nm)\<rparr>
        \<and> entry_start (slot_entry st' k) = 0
        \<and> read_file st' u (entry_start (slot_entry st' k)) [] = Some (Inl InvalidSectorZero)"
  using assms
proof (cases rule: put_file_cases)
  case (ok r st1 bitmap bitmap' lst k)
  from ok(11) have e: "slot_entry st' k =
            \<lparr>flag = FLAG_IN_USE, count_lo = 0, count_hi = 0, start_lo = 0, start_hi = 0,
             name = fst (putname nm), suffix = snd (putname nm)\<rparr>" by simp
  then have s: "entry_start (slot_entry st' k) = 0" by (simp add: entry_start_def)
  have "read_file st' u 0 [] = Some (Inl InvalidSectorZero)"
    by (subst read_file.simps) (simp add: getsect_def)
  with e s ok(6) show ?thesis by auto
qed auto

theorem put_file_empty_then_read_fails_witness:
  "valid_image blank_sd \<and> length (replicate 128 (0::u8)) = 128
   \<and> (\<exists>st' k. put_file blank_sd (replicate 128 0) [] (bytes ''empty.txt'') = Some (Inr (), st')
          \<and> k < 64 \<and> slot_in_use st' k \<and> entry_start (slot_entry st' k) = 0
          \<and> read_file st' (replicate 128 0) (entry_start (slot_entry st' k)) []
               = Some (Inl InvalidSectorZero))"
proof -
  define u :: sector where "u = replicate 128 0"
  define nm where "nm = bytes ''empty.txt''"
  have lu: "length u = 128" by (simp add: u_def)
  have "List.find (slot_matches blank_sd nm) [0..<64] = None"
    using blank_sd_unused by (auto simp add: find_None_iff slot_matches_def)
  then have "find_file blank_sd u nm True = (Inl NotFound, blank_sd)"
    using find_file_find[OF valid_image_dir[OF valid_blank_sd] lu, of nm True] by simp
  then have rm: "rm blank_sd u nm True = Some (Inl NotFound, blank_sd)" by (simp add: rm_def)
  from put_file_Some[OF rm] obtain res st' where
    pf: "put_file blank_sd u [] nm = Some (res, st')" by force
  from valid_blank_sd lu pf
  have ok: "res = Inr () \<and> find_empty_entry blank_sd u = Inr 0 \<or> False"
  proof (cases rule: put_file_cases)
    case (fatal r)
    with rm show ?thesis by simp
  next
    case (full r)
    with rm blank_sd_unused[of 0] show ?thesis by auto
  next
    case (nospace r bm)
    then show ?thesis by simp
  next
    case (ok r st1 bm bm' lst k)
    with rm have "st1 = blank_sd" by simp
    with ok(7) have fe: "find_empty_entry blank_sd u = Inr k" by simp
    have "List.find (\<lambda>k. \<not> slot_in_use blank_sd k) [0..<64] = Some 0"
      by (subst find_upt_rec) (simp add: blank_sd_unused)
    then have "find_empty_entry blank_sd u = Inr 0"
      using find_empty_entry_find[OF valid_image_dir[OF valid_blank_sd] lu] by simp
    with ok(2) show ?thesis by simp
  qed
  then have res: "put_file blank_sd u [] nm = Some (Inr (), st')" using pf by simp
  from put_file_empty_then_read_fails[OF valid_blank_sd lu res] obtain k where
        k: "k < 64"
    and e: "slot_entry st' k =
            \<lparr>flag = FLAG_IN_USE, count_lo = 0, count_hi = 0, start_lo = 0, start_hi = 0,
             name = fst (putname nm), suffix = snd (putname nm)\<rparr>"
    and s: "entry_start (slot_entry st' k) = 0"
    and rd: "read_file st' u (entry_start (slot_entry st' k)) [] = Some (Inl InvalidSectorZero)"
    by blast
  have "slot_in_use st' k" using e by (simp add: slot_in_use_def)
  with res k s rd valid_blank_sd lu show ?thesis unfolding u_def nm_def by blast
qed

end
